theory Spec2Isabelle
  imports Main "HOL-Library.Word" "HOL-Library.Multiset"
begin

unbundle bit_operations_syntax

section \<open>Data model\<close>

text \<open>
  \<^verbatim>\<open>struct Bucket { uint64_t key; uint64_t value; int16_t psl; bool occupied; };\<close>
  The field \<open>value\<close> is written \<open>value_B\<close>.
\<close>

record Bucket =
  key :: "64 word"
  value_B :: "64 word"
  psl :: "16 word"
  occupied :: bool

text \<open>
  The class \<open>BenchRHH\<close>. Its members \<open>table_\<close>, \<open>cap_\<close>, \<open>mask_\<close> and
  \<open>size_\<close> are written with the suffix \<open>_m\<close>; the three \<open>size_t\<close> are 64-bit words
  and the slot array is a list.
\<close>

record BenchRHH =
  table_m :: "Bucket list"
  cap_m :: "64 word"
  mask_m :: "64 word"
  size_m :: "64 word"

text \<open>What \<open>calloc\<close> leaves in a slot: every field zero, so \<open>occupied\<close> is false.\<close>

definition zero_Bucket :: Bucket where
  "zero_Bucket = \<lparr>key = 0, value_B = 0, psl = 0, occupied = False\<rparr>"

text \<open>
  The constructor: \<^verbatim>\<open>cap_ = c; mask_ = cap_ - 1; table_ = calloc(cap_, sizeof(Bucket))\<close>,
  with \<^verbatim>\<open>size_ = 0\<close> from the member initialiser. It checks nothing about \<open>c\<close>, and it
  stores the result of \<open>calloc\<close> unchecked. \<open>new_BenchRHH c\<close> is the object it leaves
  when the allocation succeeds: \<open>c\<close> zeroed slots.
\<close>

definition new_BenchRHH :: "64 word \<Rightarrow> BenchRHH" where
  "new_BenchRHH c =
     \<lparr>table_m = replicate (unat c) zero_Bucket, cap_m = c, mask_m = c - 1, size_m = 0\<rparr>"

text \<open>
  The constructor with its allocation. \<open>calloc\<close> returns a null pointer when the
  product \<^verbatim>\<open>cap_ * sizeof(Bucket)\<close> does not fit a \<open>size_t\<close>, and when the memory is not
  to be had. \<open>mem\<close> says whether the memory is available and \<open>sz\<close> is
  \<^verbatim>\<open>sizeof(Bucket)\<close> (24 with the usual layout of the four fields). \<open>None\<close> is the
  object whose \<^verbatim>\<open>table_\<close> is null: it has no slot array, and it is constructed without
  any error all the same.
\<close>

definition BenchRHH_ctor :: "bool \<Rightarrow> nat \<Rightarrow> 64 word \<Rightarrow> BenchRHH option" where
  "BenchRHH_ctor mem sz c =
     (if mem \<and> unat c * sz < 2 ^ 64 then Some (new_BenchRHH c) else None)"

text \<open>
  The mixing function: \<^verbatim>\<open>k ^= k >> 33; k *= 0xff51afd7ed558ccd; k ^= k >> 33; return k;\<close>
  on \<open>uint64_t\<close>, so the shift is logical and the product wraps.
\<close>

definition hash :: "64 word \<Rightarrow> 64 word" where
  "hash k =
     (let k1 = k XOR drop_bit 33 k;
          k2 = k1 * 0xff51afd7ed558ccd;
          k3 = k2 XOR drop_bit 33 k2
      in k3)"

text \<open>
  The body of the \<open>for\<close> loop of \<open>insert\<close>. The first argument is the number of
  iterations still allowed, \<^verbatim>\<open>cap_ - probes\<close>; \<open>k\<close> is the key the caller passed, which the
  duplicate test compares with, also after a swap. \<open>curr.psl > entry.psl\<close> compares two
  \<open>int16_t\<close> as signed numbers, and \<open>curr.psl++\<close> wraps at 16 bits. The loop runs only
  when \<^verbatim>\<open>cap_\<close> is not zero, and then every index it reads, \<^verbatim>\<open>x & (cap_ - 1)\<close>, lies
  inside the array (lemma \<open>and_cm1_less\<close> below).
\<close>

fun insert_loop :: "nat \<Rightarrow> 64 word \<Rightarrow> BenchRHH \<Rightarrow> Bucket \<Rightarrow> 64 word \<Rightarrow> BenchRHH" where
  "insert_loop 0 k t cur idx = t"
| "insert_loop (Suc n) k t cur idx =
     (let entry = table_m t ! unat idx in
      if \<not> occupied entry then
        t\<lparr>table_m := (table_m t)[unat idx := cur], size_m := size_m t + 1\<rparr>
      else if key entry = k then t
      else if psl entry <s psl cur then
        insert_loop n k (t\<lparr>table_m := (table_m t)[unat idx := cur]\<rparr>)
          (entry\<lparr>psl := psl entry + 1\<rparr>) ((idx + 1) AND mask_m t)
      else
        insert_loop n k t (cur\<lparr>psl := psl cur + 1\<rparr>) ((idx + 1) AND mask_m t))"

definition insert_rhh :: "64 word \<Rightarrow> 64 word \<Rightarrow> BenchRHH \<Rightarrow> BenchRHH" where
  "insert_rhh k v t =
     insert_loop (unat (cap_m t)) k t
       \<lparr>key = k, value_B = v, psl = 0, occupied = True\<rparr> (hash k AND mask_m t)"

text \<open>
  \<open>find\<close> reads \<^verbatim>\<open>table_[idx]\<close> in a \<^verbatim>\<open>while (true)\<close> loop with no bound of its own, so
  the loop is a partial function: \<open>None\<close> is a run that never returns. A read outside
  the array (possible only on a table of capacity zero) is the fault \<open>OutOfBounds\<close>.
  The result is the returned \<open>bool\<close> with the content of the reference parameter
  \<open>v\<close>, which is written only when the key is found.
\<close>

datatype fault = OutOfBounds

partial_function (option) find_loop ::
  "BenchRHH \<Rightarrow> 64 word \<Rightarrow> 64 word \<Rightarrow> 64 word \<Rightarrow> 16 word \<Rightarrow> (fault + bool \<times> 64 word) option"
where
  "find_loop t k v idx d =
     (if length (table_m t) \<le> unat idx then Some (Inl OutOfBounds)
      else
        let entry = table_m t ! unat idx in
        if \<not> occupied entry \<or> psl entry <s d then Some (Inr (False, v))
        else if key entry = k then Some (Inr (True, value_B entry))
        else find_loop t k v ((idx + 1) AND mask_m t) (d + 1))"

definition find_rhh :: "BenchRHH \<Rightarrow> 64 word \<Rightarrow> 64 word \<Rightarrow> (fault + bool \<times> 64 word) option" where
  "find_rhh t k v = find_loop t k v (hash k AND mask_m t) 0"

text \<open>
  The same loop with a budget of slot probes: \<open>find_within n\<close> is the result of \<open>find\<close>
  when it returns after at most \<open>n\<close> reads of \<^verbatim>\<open>table_[idx]\<close>, and \<open>None\<close> otherwise.
\<close>

fun find_within ::
  "nat \<Rightarrow> BenchRHH \<Rightarrow> 64 word \<Rightarrow> 64 word \<Rightarrow> 64 word \<Rightarrow> 16 word \<Rightarrow> (fault + bool \<times> 64 word) option"
where
  "find_within 0 t k v idx d = None"
| "find_within (Suc n) t k v idx d =
     (if length (table_m t) \<le> unat idx then Some (Inl OutOfBounds)
      else
        let entry = table_m t ! unat idx in
        if \<not> occupied entry \<or> psl entry <s d then Some (Inr (False, v))
        else if key entry = k then Some (Inr (True, value_B entry))
        else find_within n t k v ((idx + 1) AND mask_m t) (d + 1))"

definition find_probes :: "nat \<Rightarrow> BenchRHH \<Rightarrow> 64 word \<Rightarrow> 64 word \<Rightarrow> (fault + bool \<times> 64 word) option" where
  "find_probes n t k v = find_within n t k v (hash k AND mask_m t) 0"

text \<open>A sequence of calls of \<open>insert\<close>, as in \<^verbatim>\<open>for (auto k : keys) rhh.insert(k, k)\<close>.\<close>

fun insert_all :: "(64 word \<times> 64 word) list \<Rightarrow> BenchRHH \<Rightarrow> BenchRHH" where
  "insert_all [] t = t"
| "insert_all ((k, v) # kvs) t = insert_all kvs (insert_rhh k v t)"

text \<open>
  A sequence of calls of the two public operations. \<open>find\<close> is a \<open>const\<close> member: it
  leaves the table as it is. A sequence is completed only if every \<open>find\<close> in it returns.
\<close>

datatype operation = Insert "64 word" "64 word" | Find "64 word"

fun run_ops :: "operation list \<Rightarrow> BenchRHH \<Rightarrow> BenchRHH option" where
  "run_ops [] t = Some t"
| "run_ops (Insert k v # os) t = run_ops os (insert_rhh k v t)"
| "run_ops (Find k # os) t =
     (case find_rhh t k 0 of Some (Inr r) \<Rightarrow> run_ops os t | _ \<Rightarrow> None)"

text \<open>The number of occupied slots, and the occupancy flags of a table.\<close>

definition count_occupied :: "Bucket list \<Rightarrow> nat" where
  "count_occupied T = length (filter occupied T)"

definition occ_flags :: "BenchRHH \<Rightarrow> bool list" where
  "occ_flags t = map occupied (table_m t)"

text \<open>
  What one call of \<open>insert\<close> does to the counter: either one slot that was empty is now
  occupied and \<open>size_\<close> went up by one, or no occupancy flag and not the counter changed.
\<close>

definition insert_effect :: "BenchRHH \<Rightarrow> BenchRHH \<Rightarrow> bool" where
  "insert_effect t t' \<longleftrightarrow>
     (\<exists>i < length (occ_flags t). \<not> occ_flags t ! i \<and> occ_flags t' = (occ_flags t)[i := True]
         \<and> size_m t' = size_m t + 1)
     \<or> (occ_flags t' = occ_flags t \<and> size_m t' = size_m t)"

text \<open>The shape every table built by the constructor keeps.\<close>

definition size_inv :: "BenchRHH \<Rightarrow> bool" where
  "size_inv t \<longleftrightarrow>
     length (table_m t) = unat (cap_m t) \<and> mask_m t = cap_m t - 1
     \<and> unat (size_m t) = count_occupied (table_m t)"

text \<open>A capacity the table is meant for: a power of two, zero excluded.\<close>

definition power_of_two :: "64 word \<Rightarrow> bool" where
  "power_of_two c \<longleftrightarrow> c \<noteq> 0 \<and> c AND (c - 1) = 0"

section \<open>The Robin Hood invariant\<close>

text \<open>The ideal slot of a key, \<^verbatim>\<open>hash(k) & mask_\<close>, and the slot at an index taken cyclically.\<close>

definition ideal :: "BenchRHH \<Rightarrow> 64 word \<Rightarrow> nat" where
  "ideal t k = unat (hash k AND mask_m t)"

definition slot :: "BenchRHH \<Rightarrow> nat \<Rightarrow> Bucket" where
  "slot t x = table_m t ! (x mod length (table_m t))"

text \<open>Writing one slot of the array: \<^verbatim>\<open>table_[i] = b\<close>.\<close>

definition put :: "BenchRHH \<Rightarrow> nat \<Rightarrow> Bucket \<Rightarrow> BenchRHH" where
  "put t i b = t\<lparr>table_m := (table_m t)[i := b]\<rparr>"

text \<open>
  The first \<open>D\<close> slots of the probe sequence that starts at \<open>h\<close> are occupied, and the
  slot reached after \<open>s\<close> steps stores a \<open>psl\<close> that is, as a signed 16-bit number, not
  below the probe distance \<open>s\<close> as \<open>find\<close> counts it (in 16 bits as well).
\<close>

definition path_ok :: "BenchRHH \<Rightarrow> nat \<Rightarrow> nat \<Rightarrow> bool" where
  "path_ok t h D \<longleftrightarrow>
     (\<forall>s<D. occupied (slot t (h + s)) \<and> (of_nat s :: 16 word) \<le>s psl (slot t (h + s)))"

text \<open>The distance of slot \<open>i\<close> from the ideal slot of the key it holds, modulo the capacity.\<close>

definition displacement :: "BenchRHH \<Rightarrow> nat \<Rightarrow> nat" where
  "displacement t i =
     (i + length (table_m t) - ideal t (key (table_m t ! i))) mod length (table_m t)"

definition slot_ok :: "BenchRHH \<Rightarrow> nat \<Rightarrow> bool" where
  "slot_ok t i \<longleftrightarrow>
     (occupied (table_m t ! i) \<longrightarrow>
        psl (table_m t ! i) = of_nat (displacement t i)
        \<and> path_ok t (ideal t (key (table_m t ! i))) (displacement t i))"

definition keys_distinct :: "BenchRHH \<Rightarrow> bool" where
  "keys_distinct t \<longleftrightarrow>
     (\<forall>i<length (table_m t). \<forall>j<length (table_m t).
        occupied (table_m t ! i) \<and> occupied (table_m t ! j)
        \<and> key (table_m t ! i) = key (table_m t ! j) \<longrightarrow> i = j)"

definition key_absent :: "BenchRHH \<Rightarrow> 64 word \<Rightarrow> bool" where
  "key_absent t k \<longleftrightarrow>
     (\<forall>i<length (table_m t). occupied (table_m t ! i) \<longrightarrow> key (table_m t ! i) \<noteq> k)"

text \<open>A table of capacity \<open>2 ^ n\<close> as the constructor lays it out.\<close>

definition well_formed :: "nat \<Rightarrow> BenchRHH \<Rightarrow> bool" where
  "well_formed n t \<longleftrightarrow>
     n < 64 \<and> cap_m t = 2 ^ n \<and> mask_m t = 2 ^ n - 1 \<and> length (table_m t) = 2 ^ n"

definition rh_inv :: "nat \<Rightarrow> BenchRHH \<Rightarrow> bool" where
  "rh_inv n t \<longleftrightarrow> well_formed n t \<and> (\<forall>i<2 ^ n. slot_ok t i) \<and> keys_distinct t"

text \<open>
  The record \<open>cur\<close> carried by the loop of \<open>insert\<close> when it is about to probe slot \<open>x\<close>
  after \<open>j\<close> probes: its key is not in the table, its \<open>psl\<close> is the 16-bit image of the
  number of steps \<open>D\<close> it is away from its ideal slot, and the slots it passed let it pass.
\<close>

definition cur_ok :: "nat \<Rightarrow> BenchRHH \<Rightarrow> Bucket \<Rightarrow> nat \<Rightarrow> nat \<Rightarrow> bool" where
  "cur_ok n t cur x j \<longleftrightarrow>
     occupied cur \<and> key_absent t (key cur)
     \<and> (\<exists>D. psl cur = of_nat D \<and> (ideal t (key cur) + D) mod 2 ^ n = x
            \<and> path_ok t (ideal t (key cur)) D \<and> (n \<le> 15 \<longrightarrow> D \<le> j))"

text \<open>The key/value pairs a table stores: those of its occupied slots, as a multiset.\<close>

definition entries :: "BenchRHH \<Rightarrow> (64 word \<times> 64 word) multiset" where
  "entries t = mset (map (\<lambda>b. (key b, value_B b)) (filter occupied (table_m t)))"

section \<open>Colliding keys\<close>

text \<open>
  \<open>hash\<close> is a bijection on 64-bit words: two xor-shifts by 33, each its own inverse,
  around a multiplication by an odd constant. \<open>unhash\<close> undoes it, so
  \<open>colliding_key n j\<close> is the key whose hash is \<open>j * 2 ^ n\<close>: under capacity \<open>2 ^ n\<close>
  these keys all have ideal slot 0. \<open>colliding_kvs n m\<close> pairs the first \<open>m\<close> of them
  with the values \<open>0, 1, \<dots>\<close>.
\<close>

definition unhash :: "64 word \<Rightarrow> 64 word" where
  "unhash x =
     (let a = x XOR drop_bit 33 x;
          b = a * 0x4f74430c22a54005;
          c = b XOR drop_bit 33 b
      in c)"

definition colliding_key :: "nat \<Rightarrow> nat \<Rightarrow> 64 word" where
  "colliding_key n j = unhash (push_bit n (of_nat j))"

definition colliding_kvs :: "nat \<Rightarrow> nat \<Rightarrow> (64 word \<times> 64 word) list" where
  "colliding_kvs n m = map (\<lambda>j. (colliding_key n j, of_nat j)) [0..<m]"

text \<open>
  Two tables built from colliding keys: capacity \<open>2 ^ 16\<close> loaded with \<open>2 ^ 15 + 1\<close> of
  them, and capacity \<open>2 ^ 15\<close> filled completely.
\<close>

definition overflow_table :: BenchRHH where
  "overflow_table = insert_all (colliding_kvs 16 32769) (new_BenchRHH 65536)"

definition saturated_table :: BenchRHH where
  "saturated_table = insert_all (colliding_kvs 15 32768) (new_BenchRHH 32768)"

section \<open>Word arithmetic of the index and of the probe distance\<close>

lemma pow2_lt_64: "n < 64 \<Longrightarrow> (2::nat) ^ n < 2 ^ 64"
  by (rule power_strict_increasing) simp_all

lemma unat_pow2_64: "n < 64 \<Longrightarrow> unat ((2::64 word) ^ n) = 2 ^ n"
proof -
  assume n: "n < 64"
  have lt: "(2::nat) ^ n < 2 ^ LENGTH(64)"
    using n by (intro power_strict_increasing) simp_all
  have "unat ((2::64 word) ^ n) = unat (of_nat (2 ^ n) :: 64 word)" by simp
  also have "\<dots> = 2 ^ n mod 2 ^ LENGTH(64)" by (rule unat_of_nat)
  also have "\<dots> = 2 ^ n" using lt by (rule mod_less)
  finally show ?thesis .
qed

lemma unat_and_pow2m1: "unat ((w::64 word) AND (2 ^ n - 1)) = unat w mod 2 ^ n"
  by (simp flip: mask_eq_exp_minus_1 take_bit_eq_mask add: unsigned_take_bit_eq)
     (simp add: take_bit_eq_mod)

lemma unat_next_idx:
  assumes "n < 64" "unat (idx::64 word) < 2 ^ n"
  shows "unat ((idx + 1) AND (2 ^ n - 1)) = (unat idx + 1) mod 2 ^ n"
proof -
  have "(2::nat) ^ n < 2 ^ 64" using assms(1) by (rule pow2_lt_64)
  hence "unat idx + 1 < 2 ^ 64" using assms(2) by linarith
  hence "unat (idx + 1) = unat idx + 1" by (simp add: unat_word_ariths)
  thus ?thesis by (simp add: unat_and_pow2m1)
qed

lemma and_cm1_less: "c \<noteq> 0 \<Longrightarrow> unat ((x::64 word) AND (c - 1)) < unat c"
proof -
  assume c: "c \<noteq> 0"
  have "x AND (c - 1) \<le> c - 1" by (rule word_and_le1)
  hence "unat (x AND (c - 1)) \<le> unat (c - 1)" by (simp add: word_le_nat_alt)
  moreover have "unat (c - 1) < unat c" using c
    by (metis unat_minus_one Suc_pred' lessI unat_gt_0)
  ultimately show ?thesis by simp
qed

lemma of_nat_mod_pow2_16:
  "16 \<le> n \<Longrightarrow> (of_nat (D mod 2 ^ n) :: 16 word) = of_nat D"
proof -
  assume n: "16 \<le> n"
  have "take_bit 16 (take_bit n D) = take_bit 16 D"
    using n by (simp add: min_def)
  thus ?thesis
    by (simp add: word_of_nat_eq_iff take_bit_eq_mod)
qed

lemma sint_of_nat_small: "D < 2 ^ 15 \<Longrightarrow> sint (of_nat D :: 16 word) = int D"
  by (simp add: signed_of_nat signed_take_bit_int_eq_self)

section \<open>The size counter\<close>

lemma count_flags: "count_occupied T = count_list (map occupied T) True"
  unfolding count_occupied_def by (induction T) auto

lemma count_list_set_True:
  "i < length xs \<Longrightarrow> \<not> xs ! i \<Longrightarrow> count_list (xs[i := True]) True = Suc (count_list xs True)"
proof (induction xs arbitrary: i)
  case Nil
  then show ?case by simp
next
  case (Cons x xs)
  then show ?case by (cases i) auto
qed

lemma count_list_le_length: "count_list xs x \<le> length xs"
  by (induction xs) auto

lemma count_list_lt_length:
  "i < length xs \<Longrightarrow> xs ! i \<noteq> x \<Longrightarrow> count_list xs x < length xs"
proof (induction xs arbitrary: i)
  case Nil
  then show ?case by simp
next
  case (Cons y ys)
  show ?case
  proof (cases i)
    case 0
    with Cons.prems have "y \<noteq> x" by simp
    thus ?thesis using count_list_le_length[of ys x] by simp
  next
    case (Suc j)
    with Cons.prems have "count_list ys x < length ys" by (intro Cons.IH[of j]) auto
    thus ?thesis by simp
  qed
qed

lemma flags_update_occupied:
  "i < length T \<Longrightarrow> occupied (T ! i) \<Longrightarrow> occupied b \<Longrightarrow> map occupied (T[i := b]) = map occupied T"
  by (simp add: map_update list_update_same_conv)

lemma flags_update_empty:
  "occupied b \<Longrightarrow> map occupied (T[i := b]) = (map occupied T)[i := True]"
  by (simp add: map_update)

lemma insert_loop_empty:
  "\<not> occupied (table_m t ! unat idx) \<Longrightarrow>
   insert_loop (Suc n) k t cur idx =
     t\<lparr>table_m := (table_m t)[unat idx := cur], size_m := size_m t + 1\<rparr>"
  by simp

lemma insert_loop_dup:
  "occupied (table_m t ! unat idx) \<Longrightarrow> key (table_m t ! unat idx) = k \<Longrightarrow>
   insert_loop (Suc n) k t cur idx = t"
  by simp

lemma insert_loop_swap:
  "occupied (table_m t ! unat idx) \<Longrightarrow> key (table_m t ! unat idx) \<noteq> k \<Longrightarrow>
   psl (table_m t ! unat idx) <s psl cur \<Longrightarrow>
   insert_loop (Suc n) k t cur idx =
     insert_loop n k (t\<lparr>table_m := (table_m t)[unat idx := cur]\<rparr>)
       ((table_m t ! unat idx)\<lparr>psl := psl (table_m t ! unat idx) + 1\<rparr>)
       ((idx + 1) AND mask_m t)"
  by (simp add: Let_def)

lemma insert_loop_keep:
  "occupied (table_m t ! unat idx) \<Longrightarrow> key (table_m t ! unat idx) \<noteq> k \<Longrightarrow>
   \<not> psl (table_m t ! unat idx) <s psl cur \<Longrightarrow>
   insert_loop (Suc n) k t cur idx =
     insert_loop n k t (cur\<lparr>psl := psl cur + 1\<rparr>) ((idx + 1) AND mask_m t)"
  by (simp add: Let_def)

lemma insert_effect_refl: "insert_effect t t"
  by (simp add: insert_effect_def)

lemma insert_loop_effect:
  "occupied cur \<Longrightarrow> unat idx < length (table_m t) \<Longrightarrow> length (table_m t) = unat (cap_m t)
   \<Longrightarrow> mask_m t = cap_m t - 1
   \<Longrightarrow> insert_effect t (insert_loop n k t cur idx) 
       \<and> cap_m (insert_loop n k t cur idx) = cap_m t 
       \<and> mask_m (insert_loop n k t cur idx) = mask_m t"
proof (induction n arbitrary: t cur idx)
  case 0
  then show ?case by (simp add: insert_effect_refl)
next
  case (Suc n)
  let ?T = "table_m t"
  let ?e = "?T ! unat idx"
  let ?idx' = "(idx + 1) AND mask_m t"
  have "0 < unat (cap_m t)" using Suc.prems(2,3) by linarith
  hence c0: "cap_m t \<noteq> 0" by (simp add: unat_gt_0)
  have idx': "unat ?idx' < length ?T"
    using and_cm1_less[OF c0, of "idx + 1"] Suc.prems(3,4) by simp
  show ?case
  proof (cases "occupied ?e")
    case False
    let ?t1 = "t\<lparr>table_m := ?T[unat idx := cur], size_m := size_m t + 1\<rparr>"
    have eq: "insert_loop (Suc n) k t cur idx = ?t1"
      using False by (rule insert_loop_empty)
    have "insert_effect t ?t1"
      unfolding insert_effect_def occ_flags_def using False Suc.prems(1,2)
      by (intro disjI1 exI[of _ "unat idx"]) (simp add: map_update)
    thus ?thesis unfolding eq by simp
  next
    case occ: True
    show ?thesis
    proof (cases "key ?e = k")
      case True
      have eq: "insert_loop (Suc n) k t cur idx = t"
        using occ True by (rule insert_loop_dup)
      show ?thesis unfolding eq by (simp add: insert_effect_refl)
    next
      case nk: False
      show ?thesis
      proof (cases "psl ?e <s psl cur")
        case True
        let ?t1 = "t\<lparr>table_m := ?T[unat idx := cur]\<rparr>"
        let ?c1 = "?e\<lparr>psl := psl ?e + 1\<rparr>"
        have eq: "insert_loop (Suc n) k t cur idx = insert_loop n k ?t1 ?c1 ?idx'"
          using occ nk True by (rule insert_loop_swap)
        have f: "occ_flags ?t1 = occ_flags t"
          using flags_update_occupied[of "unat idx" ?T cur] occ Suc.prems(1,2)
          by (simp add: occ_flags_def)
        have "insert_effect ?t1 (insert_loop n k ?t1 ?c1 ?idx') \<and>
              cap_m (insert_loop n k ?t1 ?c1 ?idx') = cap_m ?t1 \<and>
              mask_m (insert_loop n k ?t1 ?c1 ?idx') = mask_m ?t1"
        proof (rule Suc.IH)
          show "occupied ?c1" using occ by simp
          show "unat ((idx + 1) AND mask_m t) < length (table_m ?t1)" using idx' by simp
          show "length (table_m ?t1) = unat (cap_m ?t1)" using Suc.prems(3) by simp
          show "mask_m ?t1 = cap_m ?t1 - 1" using Suc.prems(4) by simp
        qed
        hence "insert_effect t (insert_loop n k ?t1 ?c1 ?idx') \<and>
              cap_m (insert_loop n k ?t1 ?c1 ?idx') = cap_m t \<and>
              mask_m (insert_loop n k ?t1 ?c1 ?idx') = mask_m t"
          using f by (simp add: insert_effect_def)
        thus ?thesis unfolding eq .
      next
        case False
        let ?c1 = "cur\<lparr>psl := psl cur + 1\<rparr>"
        have eq: "insert_loop (Suc n) k t cur idx = insert_loop n k t ?c1 ?idx'"
          using occ nk False by (rule insert_loop_keep)
        have "insert_effect t (insert_loop n k t ?c1 ?idx') \<and>
              cap_m (insert_loop n k t ?c1 ?idx') = cap_m t \<and>
              mask_m (insert_loop n k t ?c1 ?idx') = mask_m t"
        proof (rule Suc.IH)
          show "occupied ?c1" using Suc.prems(1) by simp
        qed (use idx' Suc.prems in simp_all)
        thus ?thesis unfolding eq .
      qed
    qed
  qed
qed


lemma unat_succ_64: "unat (x::64 word) < unat (c::64 word) \<Longrightarrow> unat (x + 1) = Suc (unat x)"
proof -
  assume lt: "unat x < unat c"
  have "unat c < 2 ^ LENGTH(64)" by (rule unsigned_less)
  hence "unat x + unat (1::64 word) < 2 ^ LENGTH(64)" using lt by simp
  hence "unat (x + 1) = unat x + unat (1::64 word)" by (simp only: unat_add_lem)
  thus ?thesis by simp
qed

lemma size_inv_effect:
  assumes inv: "size_inv t" and eff: "insert_effect t t'"
    and c: "cap_m t' = cap_m t" and m: "mask_m t' = mask_m t"
  shows "size_inv t'"
proof -
  have len: "length (table_m t') = length (table_m t)"
  proof -
    have "length (occ_flags t') = length (occ_flags t)"
      using eff unfolding insert_effect_def by auto
    thus ?thesis by (simp add: occ_flags_def)
  qed
  have cnt: "unat (size_m t') = count_occupied (table_m t')"
    using eff unfolding insert_effect_def
  proof (elim disjE exE conjE)
    fix i
    assume i: "i < length (occ_flags t)" and e: "\<not> occ_flags t ! i"
      and f: "occ_flags t' = (occ_flags t)[i := True]" and sz: "size_m t' = size_m t + 1"
    have c1: "count_occupied (table_m t') = Suc (count_occupied (table_m t))"
      using count_list_set_True[OF i e] f by (simp add: count_flags occ_flags_def)
    have "count_list (occ_flags t) True < length (occ_flags t)"
      using count_list_lt_length[OF i, of True] e by simp
    hence "unat (size_m t) < unat (cap_m t)"
      using inv by (simp add: size_inv_def count_flags occ_flags_def)
    hence "unat (size_m t + 1) = Suc (unat (size_m t))" by (rule unat_succ_64)
    thus ?thesis using c1 sz inv by (simp add: size_inv_def)
  next
    assume "occ_flags t' = occ_flags t" "size_m t' = size_m t"
    thus ?thesis using inv by (simp add: size_inv_def count_flags occ_flags_def)
  qed
  show ?thesis using inv len c m cnt by (simp add: size_inv_def)
qed

lemma insert_rhh_effect:
  assumes "size_inv t"
  shows "insert_effect t (insert_rhh k v t) \<and> cap_m (insert_rhh k v t) = cap_m t
         \<and> mask_m (insert_rhh k v t) = mask_m t"
proof (cases "cap_m t = 0")
  case True
  thus ?thesis by (simp add: insert_rhh_def insert_effect_refl)
next
  case False
  have m: "mask_m t = cap_m t - 1" and l: "length (table_m t) = unat (cap_m t)"
    using assms by (simp_all add: size_inv_def)
  have "unat (hash k AND mask_m t) < length (table_m t)"
    using and_cm1_less[OF False, of "hash k"] m l by simp
  thus ?thesis unfolding insert_rhh_def
    by (intro insert_loop_effect) (simp_all add: m l)
qed

lemma insert_rhh_size_inv: "size_inv t \<Longrightarrow> size_inv (insert_rhh k v t)"
  using insert_rhh_effect[of t k v] size_inv_effect[of t "insert_rhh k v t"] by blast

lemma new_size_inv: "size_inv (new_BenchRHH c)"
  by (simp add: size_inv_def new_BenchRHH_def count_occupied_def zero_Bucket_def)

lemma run_ops_size_inv: "size_inv t \<Longrightarrow> run_ops os t = Some t' \<Longrightarrow> size_inv t'"
proof (induction os arbitrary: t)
  case Nil
  then show ?case by simp
next
  case (Cons x os)
  show ?case
  proof (cases x)
    case (Insert k v)
    with Cons.prems have "run_ops os (insert_rhh k v t) = Some t'" by simp
    thus ?thesis using Cons.IH insert_rhh_size_inv[OF Cons.prems(1)] by blast
  next
    case (Find k)
    with Cons.prems have "run_ops os t = Some t'"
      by (simp split: option.splits sum.splits)
    thus ?thesis using Cons.IH Cons.prems(1) by blast
  qed
qed

lemma run_ops_find: "run_ops (Find k # os) t = run_ops os t \<or> run_ops (Find k # os) t = None"
  by (simp split: option.splits sum.splits)


section \<open>One probe of the lookup loop\<close>

lemma find_within_step:
  "unat idx < length (table_m t) \<Longrightarrow> occupied (table_m t ! unat idx)
   \<Longrightarrow> \<not> psl (table_m t ! unat idx) <s d \<Longrightarrow> key (table_m t ! unat idx) \<noteq> k
   \<Longrightarrow> find_within (Suc m) t k v idx d = find_within m t k v ((idx + 1) AND mask_m t) (d + 1)"
  by (simp add: Let_def)

lemma find_within_hit:
  "unat idx < length (table_m t) \<Longrightarrow> occupied (table_m t ! unat idx)
   \<Longrightarrow> \<not> psl (table_m t ! unat idx) <s d \<Longrightarrow> key (table_m t ! unat idx) = k
   \<Longrightarrow> find_within (Suc m) t k v idx d = Some (Inr (True, value_B (table_m t ! unat idx)))"
  by (simp add: Let_def)

lemma find_within_miss:
  "unat idx < length (table_m t)
   \<Longrightarrow> \<not> occupied (table_m t ! unat idx) \<or> psl (table_m t ! unat idx) <s d
   \<Longrightarrow> find_within (Suc m) t k v idx d = Some (Inr (False, v))"
  by (simp add: Let_def)

lemma find_within_loop:
  "find_within m t k v idx d = Some r \<Longrightarrow> find_loop t k v idx d = Some r"
proof (induction m arbitrary: idx d)
  case 0
  then show ?case by simp
next
  case (Suc m)
  show ?case
    using Suc.prems Suc.IH
    by (subst find_loop.simps) (auto simp: Let_def split: if_splits)
qed

lemma find_within_mono:
  "find_within m t k v idx d = Some r \<Longrightarrow> find_within (m + e) t k v idx d = Some r"
proof (induction m arbitrary: idx d)
  case 0
  then show ?case by simp
next
  case (Suc m)
  then show ?case by (auto simp: Let_def split: if_splits)
qed

declare find_within.simps(2) [simp del]
declare insert_loop.simps(2) [simp del]

section \<open>Writing a slot keeps the invariant\<close>

lemma ideal_lt: "well_formed n t \<Longrightarrow> ideal t k < 2 ^ n"
  by (simp add: well_formed_def ideal_def unat_and_pow2m1)

lemma displacement_lt: "well_formed n t \<Longrightarrow> displacement t i < 2 ^ n"
  by (simp add: well_formed_def displacement_def)

lemma mod_back:
  fixes h i C :: nat
  assumes "h < C" "i < C"
  shows "(h + (i + C - h) mod C) mod C = i"
proof -
  have "(h + (i + C - h) mod C) mod C = (h + (i + C - h)) mod C"
    by (rule mod_add_right_eq)
  also have "h + (i + C - h) = i + C" using assms by simp
  also have "(i + C) mod C = i" using assms by simp
  finally show ?thesis .
qed

lemma mod_unique:
  fixes h i C D :: nat
  assumes "h < C" "D < C" "(h + D) mod C = i"
  shows "(i + C - h) mod C = D"
proof (cases "h + D < C")
  case True
  hence "i = h + D" using assms(3) by simp
  hence "i + C - h = D + C" by simp
  thus ?thesis using assms(2) by simp
next
  case False
  hence "(h + D) mod C = h + D - C" using assms(1,2)
    by (simp add: mod_if)
  hence "i + C - h = D" using assms False by simp
  thus ?thesis using assms(2) by simp
qed

lemma displacement_home:
  "well_formed n t \<Longrightarrow> i < 2 ^ n \<Longrightarrow>
   (ideal t (key (table_m t ! i)) + displacement t i) mod 2 ^ n = i"
  using mod_back[of "ideal t (key (table_m t ! i))" "2 ^ n" i] ideal_lt[of n t]
  by (simp add: displacement_def well_formed_def)

lemma well_formed_put [simp]: "well_formed n (put t i b) = well_formed n t"
  by (simp add: well_formed_def put_def)

lemma ideal_put [simp]: "ideal (put t i b) k = ideal t k"
  by (simp add: ideal_def put_def)

lemma length_put [simp]: "length (table_m (put t i b)) = length (table_m t)"
  by (simp add: put_def)

lemma nth_put: "i < length (table_m t) \<Longrightarrow>
   table_m (put t i b) ! j = (if j = i then b else table_m t ! j)"
  by (simp add: put_def nth_list_update)

lemma slot_put: "well_formed n t \<Longrightarrow> i < 2 ^ n \<Longrightarrow>
   slot (put t i b) x = (if x mod 2 ^ n = i then b else slot t x)"
  by (simp add: slot_def well_formed_def nth_put)

lemma slot_nth: "well_formed n t \<Longrightarrow> i < 2 ^ n \<Longrightarrow> slot t i = table_m t ! i"
  by (simp add: slot_def well_formed_def)

lemma slot_mod: "well_formed n t \<Longrightarrow> slot t x = table_m t ! (x mod 2 ^ n)"
  by (simp add: slot_def well_formed_def)

lemma path_ok_mono: "path_ok t h D \<Longrightarrow> D' \<le> D \<Longrightarrow> path_ok t h D'"
  by (simp add: path_ok_def)

lemma path_ok_Suc:
  "path_ok t h (Suc D) \<longleftrightarrow>
     path_ok t h D \<and> occupied (slot t (h + D)) \<and> (of_nat D :: 16 word) \<le>s psl (slot t (h + D))"
  by (auto simp: path_ok_def less_Suc_eq)

lemma path_put:
  assumes wf: "well_formed n t" and i: "i < 2 ^ n" and p: "path_ok t h D"
    and b: "occupied b" and le: "occupied (table_m t ! i) \<Longrightarrow> psl (table_m t ! i) \<le>s psl b"
  shows "path_ok (put t i b) h D"
  unfolding path_ok_def
proof (intro allI impI)
  fix s assume s: "s < D"
  have o: "occupied (slot t (h + s))" and q: "(of_nat s :: 16 word) \<le>s psl (slot t (h + s))"
    using p s by (simp_all add: path_ok_def)
  show "occupied (slot (put t i b) (h + s)) \<and> (of_nat s :: 16 word) \<le>s psl (slot (put t i b) (h + s))"
  proof (cases "(h + s) mod 2 ^ n = i")
    case True
    hence e: "slot t (h + s) = table_m t ! i" using wf by (simp add: slot_mod)
    have "psl (table_m t ! i) \<le>s psl b" using le o e by simp
    hence "(of_nat s :: 16 word) \<le>s psl b" using q e by (simp add: word_sle_eq)
    thus ?thesis using True b wf i by (simp add: slot_put)
  next
    case False
    thus ?thesis using o q wf i by (simp add: slot_put)
  qed
qed

lemma slot_ok_put_other:
  assumes wf: "well_formed n t" and i: "i < 2 ^ n" and j: "j < 2 ^ n" "j \<noteq> i"
    and ok: "slot_ok t j"
    and b: "occupied b" and le: "occupied (table_m t ! i) \<Longrightarrow> psl (table_m t ! i) \<le>s psl b"
  shows "slot_ok (put t i b) j"
proof -
  have len: "length (table_m t) = 2 ^ n" using wf by (simp add: well_formed_def)
  have e: "table_m (put t i b) ! j = table_m t ! j" using i j len by (simp add: nth_put)
  have d: "displacement (put t i b) j = displacement t j" by (simp add: displacement_def e)
  show ?thesis
    unfolding slot_ok_def e d
  proof (intro impI conjI)
    assume o: "occupied (table_m t ! j)"
    show "psl (table_m t ! j) = of_nat (displacement t j)" using ok o by (simp add: slot_ok_def)
    have "path_ok t (ideal t (key (table_m t ! j))) (displacement t j)"
      using ok o by (simp add: slot_ok_def)
    thus "path_ok (put t i b) (ideal (put t i b) (key (table_m t ! j))) (displacement t j)"
      using path_put[OF wf i _ b le] by simp
  qed
qed

lemma slot_ok_put_new:
  assumes wf: "well_formed n t" and i: "i < 2 ^ n"
    and b: "occupied b" and le: "occupied (table_m t ! i) \<Longrightarrow> psl (table_m t ! i) \<le>s psl b"
    and D: "psl b = of_nat D" "D < 2 ^ n" "(ideal t (key b) + D) mod 2 ^ n = i"
    and p: "path_ok t (ideal t (key b)) D"
  shows "slot_ok (put t i b) i"
proof -
  have len: "length (table_m t) = 2 ^ n" using wf by (simp add: well_formed_def)
  have e: "table_m (put t i b) ! i = b" using i len by (simp add: nth_put)
  have "(i + 2 ^ n - ideal t (key b)) mod 2 ^ n = D"
    using mod_unique[OF ideal_lt[OF wf] D(2) D(3)] .
  hence d: "displacement (put t i b) i = D" by (simp add: displacement_def e len)
  show ?thesis unfolding slot_ok_def e d
    using D(1) path_put[OF wf i p b le] by simp
qed

lemma keys_distinct_put:
  assumes len: "i < length (table_m t)" and kd: "keys_distinct t"
    and fresh: "\<And>j. j < length (table_m t) \<Longrightarrow> j \<noteq> i \<Longrightarrow> occupied (table_m t ! j)
                 \<Longrightarrow> key (table_m t ! j) \<noteq> key b"
  shows "keys_distinct (put t i b)"
  unfolding keys_distinct_def
proof (intro allI impI)
  fix x y
  assume x: "x < length (table_m (put t i b))" and y: "y < length (table_m (put t i b))"
    and h: "occupied (table_m (put t i b) ! x) \<and> occupied (table_m (put t i b) ! y) \<and>
       key (table_m (put t i b) ! x) = key (table_m (put t i b) ! y)"
  have x': "x < length (table_m t)" and y': "y < length (table_m t)" using x y by simp_all
  show "x = y"
  proof (cases "x = i")
    case xi: True
    show ?thesis
    proof (cases "y = i")
      case True thus ?thesis using xi by simp
    next
      case False
      thus ?thesis using h xi fresh[OF y' False] len by (simp add: nth_put)
    qed
  next
    case xi: False
    show ?thesis
    proof (cases "y = i")
      case True
      thus ?thesis using h xi fresh[OF x' xi] len by (simp add: nth_put)
    next
      case False
      thus ?thesis using h xi kd x' y' len by (simp add: nth_put keys_distinct_def)
    qed
  qed
qed

lemma of_nat_mod_cap:
  assumes "n < 64" "n \<le> 15 \<longrightarrow> D < 2 ^ n"
  shows "(of_nat (D mod 2 ^ n) :: 16 word) = of_nat D"
proof (cases "n \<le> 15")
  case True
  thus ?thesis using assms by simp
next
  case False
  hence "16 \<le> n" by simp
  thus ?thesis by (rule of_nat_mod_pow2_16)
qed

lemma rh_inv_put:
  assumes inv: "rh_inv n t" and i: "i < 2 ^ n"
    and b: "occupied b" and le: "occupied (table_m t ! i) \<Longrightarrow> psl (table_m t ! i) \<le>s psl b"
    and fresh: "\<And>j. j < 2 ^ n \<Longrightarrow> j \<noteq> i \<Longrightarrow> occupied (table_m t ! j)
                 \<Longrightarrow> key (table_m t ! j) \<noteq> key b"
    and D: "psl b = of_nat D" "(ideal t (key b) + D) mod 2 ^ n = i"
           "path_ok t (ideal t (key b)) D" "n \<le> 15 \<longrightarrow> D < 2 ^ n"
  shows "rh_inv n (put t i b)"
proof -
  have wf: "well_formed n t" using inv by (simp add: rh_inv_def)
  have len: "length (table_m t) = 2 ^ n" and n: "n < 64" using wf by (simp_all add: well_formed_def)
  let ?D = "D mod 2 ^ n"
  have 1: "psl b = of_nat ?D" using of_nat_mod_cap[OF n D(4)] D(1) by simp
  have 2: "?D < 2 ^ n" by simp
  have 3: "(ideal t (key b) + ?D) mod 2 ^ n = i" using D(2) by (simp add: mod_add_right_eq)
  have 4: "path_ok t (ideal t (key b)) ?D" using D(3) by (rule path_ok_mono) simp
  have new: "slot_ok (put t i b) i" using slot_ok_put_new[OF wf i b le 1 2 3 4] .
  have all: "\<forall>j<2 ^ n. slot_ok (put t i b) j"
  proof (intro allI impI)
    fix j :: nat assume j: "j < 2 ^ n"
    show "slot_ok (put t i b) j"
    proof (cases "j = i")
      case True thus ?thesis using new by simp
    next
      case False
      have "slot_ok t j" using inv j by (simp add: rh_inv_def)
      thus ?thesis using slot_ok_put_other[OF wf i j False _ b le] by simp
    qed
  qed
  have kd: "keys_distinct (put t i b)"
    using keys_distinct_put[of i t b] inv i fresh len by (simp add: rh_inv_def)
  show ?thesis using wf all kd by (simp add: rh_inv_def)
qed

section \<open>The loop of insert keeps the invariant\<close>

lemma ideal_size [simp]: "ideal (t\<lparr>size_m := s\<rparr>) k = ideal t k"
  by (simp add: ideal_def)

lemma slot_size [simp]: "slot (t\<lparr>size_m := s\<rparr>) x = slot t x"
  by (simp add: slot_def)

lemma path_ok_size [simp]: "path_ok (t\<lparr>size_m := s\<rparr>) h D = path_ok t h D"
  by (simp add: path_ok_def)

lemma displacement_size [simp]: "displacement (t\<lparr>size_m := s\<rparr>) i = displacement t i"
  by (simp add: displacement_def)

lemma rh_inv_size [simp]: "rh_inv n (t\<lparr>size_m := s\<rparr>) = rh_inv n t"
  by (simp add: rh_inv_def well_formed_def slot_ok_def keys_distinct_def)

lemma put_size: "t\<lparr>table_m := (table_m t)[i := b], size_m := s\<rparr> = (put t i b)\<lparr>size_m := s\<rparr>"
  by (simp add: put_def)

lemma Suc_mod_step:
  fixes h D x C :: nat
  shows "(h + D) mod C = x \<Longrightarrow> (h + Suc D) mod C = Suc x mod C"
  by (metis add_Suc_right mod_Suc_eq)

lemma cur_ok_keep:
  assumes wf: "well_formed n t" and x: "x < 2 ^ n" and c: "cur_ok n t cur x j"
    and o: "occupied (table_m t ! x)" and ns: "\<not> psl (table_m t ! x) <s psl cur"
  shows "cur_ok n t (cur\<lparr>psl := psl cur + 1\<rparr>) (Suc x mod 2 ^ n) (Suc j)"
proof -
  from c obtain D where D: "psl cur = of_nat D" "(ideal t (key cur) + D) mod 2 ^ n = x"
      "path_ok t (ideal t (key cur)) D" "n \<le> 15 \<longrightarrow> D \<le> j"
    and oc: "occupied cur" and ab: "key_absent t (key cur)"
    by (auto simp: cur_ok_def)
  have s: "slot t (ideal t (key cur) + D) = table_m t ! x" using wf D(2) by (simp add: slot_mod)
  have le: "(of_nat D :: 16 word) \<le>s psl (table_m t ! x)" using ns D(1) by simp
  have p: "path_ok t (ideal t (key cur)) (Suc D)"
    unfolding path_ok_Suc using D(3) o le s by simp
  have m: "(ideal t (key cur) + Suc D) mod 2 ^ n = Suc x mod 2 ^ n"
    using D(2) by (rule Suc_mod_step)
  show ?thesis unfolding cur_ok_def
    using oc ab D(1,4) p m by (intro conjI exI[of _ "Suc D"]) simp_all
qed

lemma cur_ok_swap:
  assumes inv: "rh_inv n t" and x: "x < 2 ^ n" and c: "cur_ok n t cur x j"
    and o: "occupied (table_m t ! x)" and sw: "psl (table_m t ! x) <s psl cur"
    and j: "j < 2 ^ n"
  shows "cur_ok n (put t x cur) ((table_m t ! x)\<lparr>psl := psl (table_m t ! x) + 1\<rparr>)
           (Suc x mod 2 ^ n) (Suc j)"
proof -
  let ?e = "table_m t ! x"
  let ?h = "ideal t (key ?e)"
  let ?D = "displacement t x"
  have wf: "well_formed n t" using inv by (simp add: rh_inv_def)
  have len: "length (table_m t) = 2 ^ n" using wf by (simp add: well_formed_def)
  from c obtain Dc where Dc: "psl cur = of_nat Dc" "n \<le> 15 \<longrightarrow> Dc \<le> j"
    and oc: "occupied cur" and ab: "key_absent t (key cur)"
    by (auto simp: cur_ok_def)
  have ok: "slot_ok t x" using inv x by (simp add: rh_inv_def)
  have pe: "psl ?e = of_nat ?D" and pa: "path_ok t ?h ?D" using ok o by (simp_all add: slot_ok_def)
  have le: "psl ?e \<le>s psl cur" using sw by simp
  have hm: "(?h + ?D) mod 2 ^ n = x" using displacement_home[OF wf x] .
  have absent: "key_absent (put t x cur) (key ?e)"
    unfolding key_absent_def
  proof (intro allI impI)
    fix i assume i: "i < length (table_m (put t x cur))" and oi: "occupied (table_m (put t x cur) ! i)"
    show "key (table_m (put t x cur) ! i) \<noteq> key ?e"
    proof (cases "i = x")
      case True
      have "key ?e \<noteq> key cur" using ab o x len by (auto simp: key_absent_def)
      thus ?thesis using True x len by (simp add: nth_put)
    next
      case False
      have "occupied (table_m t ! i)" using oi False x len by (simp add: nth_put)
      hence "key (table_m t ! i) \<noteq> key ?e"
        using inv False i x o len by (auto simp: rh_inv_def keys_distinct_def)
      thus ?thesis using False x len by (simp add: nth_put)
    qed
  qed
  have p1: "path_ok (put t x cur) ?h ?D" using path_put[OF wf x pa oc] le by simp
  have sl: "slot (put t x cur) (?h + ?D) = cur" using wf x hm by (simp add: slot_put)
  have p2: "path_ok (put t x cur) ?h (Suc ?D)"
    unfolding path_ok_Suc using p1 sl oc le pe by simp
  have m: "(?h + Suc ?D) mod 2 ^ n = Suc x mod 2 ^ n" using hm by (rule Suc_mod_step)
  have b: "n \<le> 15 \<longrightarrow> Suc ?D \<le> Suc j"
  proof
    assume n: "n \<le> 15"
    hence c15: "(2::nat) ^ n \<le> 2 ^ 15" by (intro power_increasing) simp_all
    have d1: "?D < 2 ^ 15" using displacement_lt[OF wf, of x] c15 by linarith
    have d2: "Dc < 2 ^ 15" using Dc(2) n j c15 by linarith
    have "sint (of_nat ?D :: 16 word) < sint (of_nat Dc :: 16 word)"
      using sw pe Dc(1) by (simp add: word_sless_alt)
    hence "?D < Dc" using sint_of_nat_small[OF d1] sint_of_nat_small[OF d2] by simp
    thus "Suc ?D \<le> Suc j" using Dc(2) n by simp
  qed
  show ?thesis unfolding cur_ok_def
    using o absent pe p2 m b by (intro conjI exI[of _ "Suc ?D"]) simp_all
qed

lemma rh_inv_place:
  assumes inv: "rh_inv n t" and x: "x < 2 ^ n" and c: "cur_ok n t cur x j" and j: "j < 2 ^ n"
    and le: "occupied (table_m t ! x) \<Longrightarrow> psl (table_m t ! x) \<le>s psl cur"
  shows "rh_inv n (put t x cur)"
proof -
  have wf: "well_formed n t" using inv by (simp add: rh_inv_def)
  have len: "length (table_m t) = 2 ^ n" using wf by (simp add: well_formed_def)
  from c obtain D where D: "psl cur = of_nat D" "(ideal t (key cur) + D) mod 2 ^ n = x"
      "path_ok t (ideal t (key cur)) D" "n \<le> 15 \<longrightarrow> D \<le> j"
    and oc: "occupied cur" and ab: "key_absent t (key cur)"
    by (auto simp: cur_ok_def)
  have b: "n \<le> 15 \<longrightarrow> D < 2 ^ n" using D(4) j by auto
  have fresh: "\<And>i. i < 2 ^ n \<Longrightarrow> i \<noteq> x \<Longrightarrow> occupied (table_m t ! i)
                 \<Longrightarrow> key (table_m t ! i) \<noteq> key cur"
    using ab len by (simp add: key_absent_def)
  show ?thesis using rh_inv_put[OF inv x oc le fresh D(1,2,3) b] by simp
qed

lemma insert_loop_rh_inv:
  "rh_inv n t \<Longrightarrow> cur_ok n t cur (unat idx) j \<Longrightarrow> unat idx < 2 ^ n \<Longrightarrow> j + m = 2 ^ n
   \<Longrightarrow> rh_inv n (insert_loop m k t cur idx)"
proof (induction m arbitrary: t cur idx j)
  case 0
  then show ?case by simp
next
  case (Suc m)
  let ?x = "unat idx"
  let ?e = "table_m t ! ?x"
  let ?idx' = "(idx + 1) AND mask_m t"
  have wf: "well_formed n t" using Suc.prems(1) by (simp add: rh_inv_def)
  have n: "n < 64" and mk: "mask_m t = 2 ^ n - 1" using wf by (simp_all add: well_formed_def)
  have j: "j < 2 ^ n" using Suc.prems(4) by linarith
  have x': "unat ?idx' = Suc ?x mod 2 ^ n"
    using unat_next_idx[OF n Suc.prems(3)] mk by simp
  have x'lt: "unat ?idx' < 2 ^ n" unfolding x' by simp
  have j': "Suc j + m = 2 ^ n" using Suc.prems(4) by simp
  show ?case
  proof (cases "occupied ?e")
    case False
    have eq: "insert_loop (Suc m) k t cur idx = (put t ?x cur)\<lparr>size_m := size_m t + 1\<rparr>"
      using insert_loop_empty[OF False, of m k cur] by (simp only: put_size)
    have "rh_inv n (put t ?x cur)"
      using rh_inv_place[OF Suc.prems(1,3,2) j] False by simp
    thus ?thesis unfolding eq by simp
  next
    case occ: True
    show ?thesis
    proof (cases "key ?e = k")
      case True
      have eq: "insert_loop (Suc m) k t cur idx = t" using occ True by (rule insert_loop_dup)
      show ?thesis unfolding eq by (rule Suc.prems(1))
    next
      case nk: False
      show ?thesis
      proof (cases "psl ?e <s psl cur")
        case True
        let ?t1 = "put t ?x cur"
        let ?c1 = "?e\<lparr>psl := psl ?e + 1\<rparr>"
        have eq: "insert_loop (Suc m) k t cur idx = insert_loop m k ?t1 ?c1 ?idx'"
          using insert_loop_swap[OF occ nk True] by (simp add: put_def)
        have le: "psl ?e \<le>s psl cur" using True by simp
        have i1: "rh_inv n ?t1" using rh_inv_place[OF Suc.prems(1,3,2) j] le by simp
        have c1: "cur_ok n ?t1 ?c1 (unat ?idx') (Suc j)"
          unfolding x' using cur_ok_swap[OF Suc.prems(1,3,2) occ True j] .
        have "rh_inv n (insert_loop m k ?t1 ?c1 ?idx')"
          using Suc.IH[OF i1 c1 x'lt j'] .
        thus ?thesis unfolding eq .
      next
        case False
        let ?c1 = "cur\<lparr>psl := psl cur + 1\<rparr>"
        have eq: "insert_loop (Suc m) k t cur idx = insert_loop m k t ?c1 ?idx'"
          using occ nk False by (rule insert_loop_keep)
        have c1: "cur_ok n t ?c1 (unat ?idx') (Suc j)"
          unfolding x' using cur_ok_keep[OF wf Suc.prems(3,2) occ False] .
        have "rh_inv n (insert_loop m k t ?c1 ?idx')"
          using Suc.IH[OF Suc.prems(1) c1 x'lt j'] .
        thus ?thesis unfolding eq .
      qed
    qed
  qed
qed

section \<open>Keys that are present\<close>

lemma mod_inj_below:
  fixes h s D C :: nat
  assumes "s < D" "D < C"
  shows "(h + s) mod C \<noteq> (h + D) mod C"
proof
  assume e: "(h + s) mod C = (h + D) mod C"
  have "h + s \<le> h + D" using assms by simp
  hence "C dvd (h + D) - (h + s)" using e mod_eq_dvd_iff_nat[of "h + s" "h + D" C] by simp
  hence "C dvd D - s" by simp
  moreover have "0 < D - s" "D - s < C" using assms by simp_all
  ultimately show False using nat_dvd_not_less by blast
qed

lemma ideal_start: "well_formed n t \<Longrightarrow> unat (hash k AND mask_m t) = (ideal t k + 0) mod 2 ^ n"
  using ideal_lt[of n t k] by (simp add: ideal_def)

lemma keys_distinctD:
  "keys_distinct t \<Longrightarrow> i < length (table_m t) \<Longrightarrow> j < length (table_m t)
   \<Longrightarrow> occupied (table_m t ! i) \<Longrightarrow> occupied (table_m t ! j)
   \<Longrightarrow> key (table_m t ! i) = key (table_m t ! j) \<Longrightarrow> i = j"
  unfolding keys_distinct_def by blast

lemma path_step:
  assumes inv: "rh_inv n t" and i: "i < 2 ^ n" and o: "occupied (table_m t ! i)"
    and s: "s < displacement t i"
  shows "occupied (table_m t ! ((ideal t (key (table_m t ! i)) + s) mod 2 ^ n))
     \<and> \<not> psl (table_m t ! ((ideal t (key (table_m t ! i)) + s) mod 2 ^ n)) <s of_nat s
     \<and> key (table_m t ! ((ideal t (key (table_m t ! i)) + s) mod 2 ^ n)) \<noteq> key (table_m t ! i)"
proof -
  let ?h = "ideal t (key (table_m t ! i))"
  let ?x = "(?h + s) mod 2 ^ n"
  have wf: "well_formed n t" using inv by (simp add: rh_inv_def)
  have len: "length (table_m t) = 2 ^ n" using wf by (simp add: well_formed_def)
  have "slot_ok t i" using inv i by (simp add: rh_inv_def)
  hence "path_ok t ?h (displacement t i)" using o by (simp add: slot_ok_def)
  hence a: "occupied (slot t (?h + s))" and b: "(of_nat s :: 16 word) \<le>s psl (slot t (?h + s))"
    using s by (simp_all add: path_ok_def)
  have sl: "slot t (?h + s) = table_m t ! ?x" using wf by (simp add: slot_mod)
  have "?x \<noteq> (?h + displacement t i) mod 2 ^ n"
    using mod_inj_below[OF s displacement_lt[OF wf]] .
  hence ne: "?x \<noteq> i" using displacement_home[OF wf i] by simp
  have xlt: "?x < 2 ^ n" by simp
  have c: "key (table_m t ! ?x) \<noteq> key (table_m t ! i)"
  proof
    assume "key (table_m t ! ?x) = key (table_m t ! i)"
    moreover have "keys_distinct t" using inv by (simp add: rh_inv_def)
    moreover have "occupied (table_m t ! ?x)" using a sl by simp
    ultimately have "?x = i" using o i xlt len by (intro keys_distinctD[of t ?x i]) simp_all
    thus False using ne by simp
  qed
  show ?thesis using a b c sl by simp
qed

lemma insert_loop_present:
  assumes inv: "rh_inv n t" and i: "i < 2 ^ n" and o: "occupied (table_m t ! i)"
  shows "d = displacement t i - s \<Longrightarrow> s \<le> displacement t i
     \<Longrightarrow> unat idx = (ideal t (key (table_m t ! i)) + s) mod 2 ^ n \<Longrightarrow> s + m = 2 ^ n
     \<Longrightarrow> insert_loop m (key (table_m t ! i)) t
           \<lparr>key = key (table_m t ! i), value_B = v, psl = of_nat s, occupied = True\<rparr> idx = t"
proof (induction d arbitrary: s m idx)
  case 0
  have wf: "well_formed n t" using inv by (simp add: rh_inv_def)
  have "s = displacement t i" using 0 by simp
  hence x: "unat idx = i" using 0(3) displacement_home[OF wf i] by simp
  have "s < 2 ^ n" using 0(2) displacement_lt[OF wf, of i] by linarith
  then obtain m' where m: "m = Suc m'" using 0(4) by (cases m) auto
  show ?case unfolding m using o x by (intro insert_loop_dup) simp_all
next
  case (Suc d)
  let ?k = "key (table_m t ! i)"
  let ?cur = "\<lparr>key = ?k, value_B = v, psl = of_nat s, occupied = True\<rparr>"
  have wf: "well_formed n t" using inv by (simp add: rh_inv_def)
  have n: "n < 64" and mk: "mask_m t = 2 ^ n - 1" using wf by (simp_all add: well_formed_def)
  have s: "s < displacement t i" using Suc.prems(1) by simp
  hence "s < 2 ^ n" using displacement_lt[OF wf, of i] by linarith
  then obtain m' where m: "m = Suc m'" using Suc.prems(4) by (cases m) auto
  have st: "occupied (table_m t ! unat idx)" "\<not> psl (table_m t ! unat idx) <s psl ?cur"
    "key (table_m t ! unat idx) \<noteq> ?k"
    using path_step[OF inv i o s] Suc.prems(3) by simp_all
  have xlt: "unat idx < 2 ^ n" using Suc.prems(3) by simp
  have x': "unat ((idx + 1) AND mask_m t) = (ideal t ?k + Suc s) mod 2 ^ n"
    using unat_next_idx[OF n xlt] mk Suc.prems(3) by (simp add: mod_Suc_eq)
  have "insert_loop (Suc m') ?k t ?cur idx =
        insert_loop m' ?k t (?cur\<lparr>psl := psl ?cur + 1\<rparr>) ((idx + 1) AND mask_m t)"
    using st by (intro insert_loop_keep) simp_all
  also have "?cur\<lparr>psl := psl ?cur + 1\<rparr> =
       \<lparr>key = ?k, value_B = v, psl = of_nat (Suc s), occupied = True\<rparr>" by simp
  also have "insert_loop m' ?k t \<lparr>key = ?k, value_B = v, psl = of_nat (Suc s), occupied = True\<rparr>
       ((idx + 1) AND mask_m t) = t"
    using Suc.prems m s x' by (intro Suc.IH) simp_all
  finally show ?case unfolding m .
qed

lemma present_index:
  "\<not> key_absent t k \<Longrightarrow> \<exists>i<length (table_m t). occupied (table_m t ! i) \<and> key (table_m t ! i) = k"
  by (auto simp: key_absent_def)

lemma insert_rhh_present:
  assumes inv: "rh_inv n t" and i: "i < 2 ^ n" and o: "occupied (table_m t ! i)"
  shows "insert_rhh (key (table_m t ! i)) v t = t"
proof -
  have wf: "well_formed n t" using inv by (simp add: rh_inv_def)
  have n: "n < 64" and c: "cap_m t = 2 ^ n" using wf by (simp_all add: well_formed_def)
  have u: "unat (cap_m t) = 2 ^ n" using unat_pow2_64[OF n] c by simp
  show ?thesis
    unfolding insert_rhh_def u
    using insert_loop_present[OF inv i o refl _ ideal_start[OF wf], of "2 ^ n" v]
    by simp
qed

lemma insert_rhh_rh_inv:
  assumes inv: "rh_inv n t"
  shows "rh_inv n (insert_rhh k v t)"
proof (cases "key_absent t k")
  case True
  have wf: "well_formed n t" using inv by (simp add: rh_inv_def)
  have n: "n < 64" and c: "cap_m t = 2 ^ n" using wf by (simp_all add: well_formed_def)
  have u: "unat (cap_m t) = 2 ^ n" using unat_pow2_64[OF n] c by simp
  let ?cur = "\<lparr>key = k, value_B = v, psl = 0, occupied = True\<rparr>"
  let ?idx = "hash k AND mask_m t"
  have x: "unat ?idx = ideal t k" by (simp add: ideal_def)
  have xlt: "unat ?idx < 2 ^ n" unfolding x using wf by (rule ideal_lt)
  have "cur_ok n t ?cur (unat ?idx) 0"
    unfolding cur_ok_def using True xlt
    by (intro conjI exI[of _ 0]) (simp_all add: path_ok_def x)
  thus ?thesis unfolding insert_rhh_def u
    using insert_loop_rh_inv[OF inv _ xlt, of ?cur 0 "2 ^ n" k] by simp
next
  case False
  have len: "length (table_m t) = 2 ^ n" using inv by (simp add: rh_inv_def well_formed_def)
  from present_index[OF False] obtain i where
    i: "i < 2 ^ n" "occupied (table_m t ! i)" "key (table_m t ! i) = k"
    using len by auto
  show ?thesis using insert_rhh_present[OF inv i(1,2), of v] i(3) inv by simp
qed

lemma new_well_formed: "n < 64 \<Longrightarrow> well_formed n (new_BenchRHH (2 ^ n))"
  by (simp add: well_formed_def new_BenchRHH_def unat_pow2_64)

lemma new_rh_inv: "n < 64 \<Longrightarrow> rh_inv n (new_BenchRHH (2 ^ n))"
  using new_well_formed[of n]
  by (simp add: rh_inv_def slot_ok_def keys_distinct_def new_BenchRHH_def zero_Bucket_def
      unat_pow2_64)

lemma insert_all_rh_inv: "rh_inv n t \<Longrightarrow> rh_inv n (insert_all kvs t)"
proof (induction kvs arbitrary: t)
  case Nil
  then show ?case by simp
next
  case (Cons kv kvs)
  obtain k v where kv: "kv = (k, v)" by (cases kv)
  show ?case unfolding kv using Cons.IH[OF insert_rhh_rh_inv[OF Cons.prems]] by simp
qed

lemma find_within_present:
  assumes inv: "rh_inv n t" and i: "i < 2 ^ n" and o: "occupied (table_m t ! i)"
  shows "d = displacement t i - s \<Longrightarrow> s \<le> displacement t i
     \<Longrightarrow> unat idx = (ideal t (key (table_m t ! i)) + s) mod 2 ^ n
     \<Longrightarrow> find_within (Suc d) t (key (table_m t ! i)) v idx (of_nat s)
           = Some (Inr (True, value_B (table_m t ! i)))"
proof (induction d arbitrary: s idx)
  case 0
  have wf: "well_formed n t" using inv by (simp add: rh_inv_def)
  have len: "length (table_m t) = 2 ^ n" using wf by (simp add: well_formed_def)
  have sd: "s = displacement t i" using 0 by simp
  hence x: "unat idx = i" using 0(3) displacement_home[OF wf i] by simp
  have "slot_ok t i" using inv i by (simp add: rh_inv_def)
  hence "psl (table_m t ! i) = of_nat s" using o sd by (simp add: slot_ok_def)
  hence "find_within (Suc 0) t (key (table_m t ! i)) v idx (of_nat s)
           = Some (Inr (True, value_B (table_m t ! unat idx)))"
    using x o i len by (intro find_within_hit) simp_all
  thus ?case using x by simp
next
  case (Suc d)
  let ?k = "key (table_m t ! i)"
  have wf: "well_formed n t" using inv by (simp add: rh_inv_def)
  have n: "n < 64" and mk: "mask_m t = 2 ^ n - 1" and len: "length (table_m t) = 2 ^ n"
    using wf by (simp_all add: well_formed_def)
  have s: "s < displacement t i" using Suc.prems(1) by simp
  have st: "occupied (table_m t ! unat idx)" "\<not> psl (table_m t ! unat idx) <s of_nat s"
    "key (table_m t ! unat idx) \<noteq> ?k"
    using path_step[OF inv i o s] Suc.prems(3) by simp_all
  have xlt: "unat idx < 2 ^ n" using Suc.prems(3) by simp
  have x': "unat ((idx + 1) AND mask_m t) = (ideal t ?k + Suc s) mod 2 ^ n"
    using unat_next_idx[OF n xlt] mk Suc.prems(3) by (simp add: mod_Suc_eq)
  have "find_within (Suc (Suc d)) t ?k v idx (of_nat s) =
        find_within (Suc d) t ?k v ((idx + 1) AND mask_m t) (of_nat s + 1)"
    using st xlt len by (intro find_within_step) simp_all
  also have "\<dots> = find_within (Suc d) t ?k v ((idx + 1) AND mask_m t) (of_nat (Suc s))"
    by (simp add: add.commute)
  also have "\<dots> = Some (Inr (True, value_B (table_m t ! i)))"
    using Suc.prems s x' by (intro Suc.IH) simp_all
  finally show ?case .
qed

lemma find_probes_present:
  assumes inv: "rh_inv n t" and i: "i < 2 ^ n" and o: "occupied (table_m t ! i)"
  shows "find_probes (Suc (displacement t i)) t (key (table_m t ! i)) v
           = Some (Inr (True, value_B (table_m t ! i)))"
proof -
  have wf: "well_formed n t" using inv by (simp add: rh_inv_def)
  have "find_within (Suc (displacement t i - 0)) t (key (table_m t ! i)) v
          (hash (key (table_m t ! i)) AND mask_m t) (of_nat 0)
        = Some (Inr (True, value_B (table_m t ! i)))"
    using find_within_present[OF inv i o refl _ ideal_start[OF wf]] by blast
  thus ?thesis unfolding find_probes_def by simp
qed

lemma find_rhh_present:
  assumes inv: "rh_inv n t" and i: "i < 2 ^ n" and o: "occupied (table_m t ! i)"
  shows "find_rhh t (key (table_m t ! i)) v = Some (Inr (True, value_B (table_m t ! i)))"
  using find_probes_present[OF inv i o, of v]
  unfolding find_probes_def find_rhh_def by (rule find_within_loop)

section \<open>The stored pairs\<close>

lemma pairs_update:
  "i < length T \<Longrightarrow> occupied b \<Longrightarrow>
   mset (map f (filter occupied (T[i := b]))) + (if occupied (T ! i) then {#f (T ! i)#} else {#})
     = mset (map f (filter occupied T)) + {#f b#}"
proof (induction T arbitrary: i)
  case Nil
  then show ?case by simp
next
  case (Cons a T)
  show ?case
  proof (cases i)
    case 0
    then show ?thesis using Cons.prems by simp
  next
    case (Suc j)
    then show ?thesis using Cons.prems Cons.IH[of j] by (auto split: if_splits)
  qed
qed

lemma entries_put_empty:
  "i < length (table_m t) \<Longrightarrow> \<not> occupied (table_m t ! i) \<Longrightarrow> occupied b \<Longrightarrow>
   entries (put t i b) = entries t + {#(key b, value_B b)#}"
  using pairs_update[of i "table_m t" b "\<lambda>b. (key b, value_B b)"]
  by (simp add: entries_def put_def)

lemma entries_put_swap:
  "i < length (table_m t) \<Longrightarrow> occupied (table_m t ! i) \<Longrightarrow> occupied b \<Longrightarrow>
   entries (put t i b) + {#(key (table_m t ! i), value_B (table_m t ! i))#}
     = entries t + {#(key b, value_B b)#}"
  using pairs_update[of i "table_m t" b "\<lambda>b. (key b, value_B b)"]
  by (simp add: entries_def put_def)

lemma entries_size [simp]: "entries (t\<lparr>size_m := s\<rparr>) = entries t"
  by (simp add: entries_def)

lemma size_entries: "size (entries t) = count_occupied (table_m t)"
  by (simp add: entries_def count_occupied_def flip: mset_filter)

lemma entries_member:
  "(k, v) \<in># entries t \<longleftrightarrow>
     (\<exists>i<length (table_m t). occupied (table_m t ! i) \<and> key (table_m t ! i) = k
        \<and> value_B (table_m t ! i) = v)"
proof -
  have "(k, v) \<in># entries t \<longleftrightarrow> (\<exists>b \<in> set (table_m t). occupied b \<and> key b = k \<and> value_B b = v)"
    by (auto simp: entries_def)
  also have "\<dots> \<longleftrightarrow> (\<exists>i<length (table_m t). occupied (table_m t ! i) \<and> key (table_m t ! i) = k
        \<and> value_B (table_m t ! i) = v)"
    by (metis in_set_conv_nth)
  finally show ?thesis .
qed

lemma key_absent_entries: "key_absent t k \<longleftrightarrow> k \<notin> fst ` set_mset (entries t)"
proof -
  have "k \<in> fst ` set_mset (entries t) \<longleftrightarrow> (\<exists>v. (k, v) \<in># entries t)"
    by force
  thus ?thesis unfolding key_absent_def entries_member by blast
qed

lemma empty_slot_exists:
  "count_occupied T < length T \<Longrightarrow> \<exists>i<length T. \<not> occupied (T ! i)"
proof (rule ccontr)
  assume lt: "count_occupied T < length T" and no: "\<not> (\<exists>i<length T. \<not> occupied (T ! i))"
  hence "\<forall>b \<in> set T. occupied b" by (metis in_set_conv_nth)
  hence "filter occupied T = T" by (simp add: filter_id_conv)
  thus False using lt by (simp add: count_occupied_def)
qed

lemma window_shift:
  fixes x e C :: nat
  shows "(Suc x mod C + e) mod C = (x + Suc e) mod C"
  by (metis add_Suc add_Suc_right mod_add_left_eq)

lemma insert_loop_entries:
  "well_formed n t \<Longrightarrow> occupied cur \<Longrightarrow> unat idx < 2 ^ n \<Longrightarrow> m \<le> 2 ^ n
   \<Longrightarrow> (\<forall>e<m. occupied (slot t (unat idx + e)) \<longrightarrow> key (slot t (unat idx + e)) \<noteq> k)
   \<Longrightarrow> (\<exists>e<m. \<not> occupied (slot t (unat idx + e)))
   \<Longrightarrow> entries (insert_loop m k t cur idx) = entries t + {#(key cur, value_B cur)#}
       \<and> size_m (insert_loop m k t cur idx) = size_m t + 1"
proof (induction m arbitrary: t cur idx)
  case 0
  then show ?case by simp
next
  case (Suc m)
  let ?x = "unat idx"
  let ?e = "table_m t ! ?x"
  let ?idx' = "(idx + 1) AND mask_m t"
  have wf: "well_formed n t" by (rule Suc.prems(1))
  have n: "n < 64" and mk: "mask_m t = 2 ^ n - 1" and len: "length (table_m t) = 2 ^ n"
    using wf by (simp_all add: well_formed_def)
  have xlt: "?x < 2 ^ n" by (rule Suc.prems(3))
  have s0: "slot t (?x + 0) = ?e" using wf xlt by (simp add: slot_nth)
  have x': "unat ?idx' = Suc ?x mod 2 ^ n" using unat_next_idx[OF n xlt] mk by simp
  have x'lt: "unat ?idx' < 2 ^ n" unfolding x' by simp
  have mle: "m \<le> 2 ^ n" using Suc.prems(4) by simp
  have sh: "\<And>e. slot t (unat ?idx' + e) = slot t (?x + Suc e)"
    unfolding x' using wf by (simp add: slot_mod window_shift)
  show ?case
  proof (cases "occupied ?e")
    case False
    have eq: "insert_loop (Suc m) k t cur idx = (put t ?x cur)\<lparr>size_m := size_m t + 1\<rparr>"
      using insert_loop_empty[OF False, of m k cur] by (simp only: put_size)
    show ?thesis unfolding eq
      using entries_put_empty[of ?x t cur] False Suc.prems(2) xlt len by simp
  next
    case occ: True
    have nk: "key ?e \<noteq> k" using Suc.prems(5) occ s0 by (metis zero_less_Suc)
    have K: "\<forall>e<m. occupied (slot t (unat ?idx' + e)) \<longrightarrow> key (slot t (unat ?idx' + e)) \<noteq> k"
      unfolding sh
    proof (intro allI impI)
      fix e assume "e < m" and "occupied (slot t (?x + Suc e))"
      thus "key (slot t (?x + Suc e)) \<noteq> k"
        using Suc.prems(5)[rule_format, of "Suc e"] by simp
    qed
    have E: "\<exists>e<m. \<not> occupied (slot t (unat ?idx' + e))"
    proof -
      from Suc.prems(6) obtain e where e: "e < Suc m" "\<not> occupied (slot t (?x + e))" by blast
      hence "e \<noteq> 0" using occ s0 by (metis)
      then obtain e' where "e = Suc e'" by (cases e) auto
      thus ?thesis unfolding sh using e by auto
    qed
    show ?thesis
    proof (cases "psl ?e <s psl cur")
      case True
      let ?t1 = "put t ?x cur"
      let ?c1 = "?e\<lparr>psl := psl ?e + 1\<rparr>"
      have eq: "insert_loop (Suc m) k t cur idx = insert_loop m k ?t1 ?c1 ?idx'"
        using insert_loop_swap[OF occ nk True] by (simp add: put_def)
      have same: "\<And>e. e < m \<Longrightarrow> slot ?t1 (unat ?idx' + e) = slot t (unat ?idx' + e)"
      proof -
        fix e assume e: "e < m"
        have "(?x + 0) mod 2 ^ n \<noteq> (?x + Suc e) mod 2 ^ n"
          using e Suc.prems(4) by (intro mod_inj_below) simp_all
        hence "(?x + Suc e) mod 2 ^ n \<noteq> ?x" using xlt by simp
        hence "(unat ?idx' + e) mod 2 ^ n \<noteq> ?x" unfolding x' by (simp add: window_shift)
        thus "slot ?t1 (unat ?idx' + e) = slot t (unat ?idx' + e)"
          using wf xlt by (simp add: slot_put)
      qed
      have m1: "mask_m ?t1 = mask_m t" by (simp add: put_def)
      have "entries (insert_loop m k ?t1 ?c1 ?idx') = entries ?t1 + {#(key ?c1, value_B ?c1)#}
          \<and> size_m (insert_loop m k ?t1 ?c1 ?idx') = size_m ?t1 + 1"
      proof (rule Suc.IH)
        show "well_formed n ?t1" using wf by simp
        show "occupied ?c1" using occ by simp
        show "unat ?idx' < 2 ^ n" by (rule x'lt)
        show "m \<le> 2 ^ n" by (rule mle)
        show "\<forall>e<m. occupied (slot ?t1 (unat ?idx' + e)) \<longrightarrow> key (slot ?t1 (unat ?idx' + e)) \<noteq> k"
          using K same by simp
        show "\<exists>e<m. \<not> occupied (slot ?t1 (unat ?idx' + e))"
          using E same by auto
      qed
      moreover have "entries ?t1 + {#(key ?e, value_B ?e)#} = entries t + {#(key cur, value_B cur)#}"
        using entries_put_swap[of ?x t cur] occ Suc.prems(2) xlt len by simp
      moreover have "size_m ?t1 = size_m t" by (simp add: put_def)
      ultimately show ?thesis unfolding eq by simp
    next
      case False
      let ?c1 = "cur\<lparr>psl := psl cur + 1\<rparr>"
      have eq: "insert_loop (Suc m) k t cur idx = insert_loop m k t ?c1 ?idx'"
        using occ nk False by (rule insert_loop_keep)
      have "entries (insert_loop m k t ?c1 ?idx') = entries t + {#(key ?c1, value_B ?c1)#}
          \<and> size_m (insert_loop m k t ?c1 ?idx') = size_m t + 1"
        using wf Suc.prems(2) x'lt mle K E by (intro Suc.IH) simp_all
      thus ?thesis unfolding eq by simp
    qed
  qed
qed

lemma insert_rhh_absent:
  assumes wf: "well_formed n t" and ab: "key_absent t k"
    and room: "count_occupied (table_m t) < 2 ^ n"
  shows "entries (insert_rhh k v t) = entries t + {#(k, v)#}
       \<and> size_m (insert_rhh k v t) = size_m t + 1"
proof -
  have n: "n < 64" and c: "cap_m t = 2 ^ n" and len: "length (table_m t) = 2 ^ n"
    using wf by (simp_all add: well_formed_def)
  have u: "unat (cap_m t) = 2 ^ n" using unat_pow2_64[OF n] c by simp
  let ?idx = "hash k AND mask_m t"
  let ?cur = "\<lparr>key = k, value_B = v, psl = 0, occupied = True\<rparr>"
  have xlt: "unat ?idx < 2 ^ n" using ideal_lt[OF wf, of k] by (simp add: ideal_def)
  have K: "\<forall>e<2 ^ n. occupied (slot t (unat ?idx + e)) \<longrightarrow> key (slot t (unat ?idx + e)) \<noteq> k"
    using ab wf len by (simp add: slot_mod key_absent_def)
  from empty_slot_exists[of "table_m t"] room len obtain i where
    i: "i < 2 ^ n" "\<not> occupied (table_m t ! i)" by auto
  have "slot t (unat ?idx + (i + 2 ^ n - unat ?idx) mod 2 ^ n) = table_m t ! i"
    using wf mod_back[OF xlt i(1)] by (simp add: slot_mod)
  hence E: "\<exists>e<2 ^ n. \<not> occupied (slot t (unat ?idx + e))"
    using i(2) by (intro exI[of _ "(i + 2 ^ n - unat ?idx) mod 2 ^ n"]) simp
  show ?thesis unfolding insert_rhh_def u
    using insert_loop_entries[OF wf _ xlt _ K E, of ?cur] by simp
qed

section \<open>Filling a new table\<close>

lemma insert_rhh_well_formed: "rh_inv n t \<Longrightarrow> well_formed n (insert_rhh k v t)"
  using insert_rhh_rh_inv[of n t k v] by (simp add: rh_inv_def)

lemma insert_all_entries:
  "rh_inv n t \<Longrightarrow> distinct (map fst kvs) \<Longrightarrow> (\<forall>kv \<in> set kvs. key_absent t (fst kv))
   \<Longrightarrow> count_occupied (table_m t) + length kvs \<le> 2 ^ n
   \<Longrightarrow> entries (insert_all kvs t) = entries t + mset kvs"
proof (induction kvs arbitrary: t)
  case Nil
  then show ?case by simp
next
  case (Cons kv kvs)
  obtain k v where kv: "kv = (k, v)" by (cases kv)
  let ?t1 = "insert_rhh k v t"
  have wf: "well_formed n t" using Cons.prems(1) by (simp add: rh_inv_def)
  have ab: "key_absent t k" using Cons.prems(3) kv by simp
  have room: "count_occupied (table_m t) < 2 ^ n" using Cons.prems(4) by simp
  have e1: "entries ?t1 = entries t + {#(k, v)#}"
    using insert_rhh_absent[OF wf ab room] by simp
  have i1: "rh_inv n ?t1" using Cons.prems(1) by (rule insert_rhh_rh_inv)
  have d1: "distinct (map fst kvs)" using Cons.prems(2) by simp
  have a1: "\<forall>kv' \<in> set kvs. key_absent ?t1 (fst kv')"
  proof
    fix kv' assume m: "kv' \<in> set kvs"
    have "fst kv' \<noteq> k" using Cons.prems(2) m kv by auto
    moreover have "fst kv' \<notin> fst ` set_mset (entries t)"
      using Cons.prems(3) m by (simp add: key_absent_entries)
    ultimately show "key_absent ?t1 (fst kv')"
      unfolding key_absent_entries e1 by auto
  qed
  have "count_occupied (table_m ?t1) = Suc (count_occupied (table_m t))"
    using e1 size_entries[of ?t1] size_entries[of t] by simp
  hence c1: "count_occupied (table_m ?t1) + length kvs \<le> 2 ^ n" using Cons.prems(4) by simp
  have "entries (insert_all kvs ?t1) = entries ?t1 + mset kvs"
    using Cons.IH[OF i1 d1 a1 c1] .
  thus ?case unfolding kv e1 by simp
qed

lemma insert_all_size_inv: "size_inv t \<Longrightarrow> size_inv (insert_all kvs t)"
proof (induction kvs arbitrary: t)
  case Nil
  then show ?case by simp
next
  case (Cons kv kvs)
  obtain k v where kv: "kv = (k, v)" by (cases kv)
  show ?case unfolding kv using Cons.IH[OF insert_rhh_size_inv[OF Cons.prems]] by simp
qed

lemma new_entries: "entries (new_BenchRHH c) = {#}"
  by (simp add: entries_def new_BenchRHH_def zero_Bucket_def)

lemma new_count: "count_occupied (table_m (new_BenchRHH c)) = 0"
  by (simp add: count_occupied_def new_BenchRHH_def zero_Bucket_def)

lemma new_key_absent: "key_absent (new_BenchRHH c) k"
  by (simp add: key_absent_entries new_entries)

lemma fill_entries:
  assumes n: "n < 64" and d: "distinct (map fst kvs)" and l: "length kvs \<le> 2 ^ n"
  shows "entries (insert_all kvs (new_BenchRHH (2 ^ n))) = mset kvs"
  using insert_all_entries[OF new_rh_inv[OF n] d, of ] l
  by (simp add: new_key_absent new_entries new_count)

lemma fill_rh_inv: "n < 64 \<Longrightarrow> rh_inv n (insert_all kvs (new_BenchRHH (2 ^ n)))"
  using insert_all_rh_inv[OF new_rh_inv] .

lemma fill_size:
  "unat (size_m (insert_all kvs (new_BenchRHH c))) = size (entries (insert_all kvs (new_BenchRHH c)))"
  using insert_all_size_inv[OF new_size_inv, of kvs c]
  by (simp add: size_inv_def size_entries)

section \<open>How far the lookup loop runs\<close>

lemma find_within_cases:
  assumes "unat idx < length (table_m t)"
  shows "find_within (Suc m) t k v idx d = Some (Inr (False, v))
       \<or> find_within (Suc m) t k v idx d = Some (Inr (True, value_B (table_m t ! unat idx)))
       \<or> (find_within (Suc m) t k v idx d = find_within m t k v ((idx + 1) AND mask_m t) (d + 1)
           \<and> occupied (table_m t ! unat idx) \<and> \<not> psl (table_m t ! unat idx) <s d)"
  using assms by (simp add: find_within.simps Let_def)

lemma find_within_empty:
  "well_formed n t \<Longrightarrow> unat idx < 2 ^ n \<Longrightarrow> (\<exists>e<m. \<not> occupied (slot t (unat idx + e)))
   \<Longrightarrow> \<exists>b w. find_within m t k v idx d = Some (Inr (b, w))"
proof (induction m arbitrary: idx d)
  case 0
  then show ?case by simp
next
  case (Suc m)
  let ?x = "unat idx"
  let ?idx' = "(idx + 1) AND mask_m t"
  have wf: "well_formed n t" by (rule Suc.prems(1))
  have n: "n < 64" and mk: "mask_m t = 2 ^ n - 1" and len: "length (table_m t) = 2 ^ n"
    using wf by (simp_all add: well_formed_def)
  have xlt: "?x < length (table_m t)" using Suc.prems(2) len by simp
  have x': "unat ?idx' = Suc ?x mod 2 ^ n" using unat_next_idx[OF n Suc.prems(2)] mk by simp
  have x'lt: "unat ?idx' < 2 ^ n" unfolding x' by simp
  have s0: "slot t (?x + 0) = table_m t ! ?x" using wf Suc.prems(2) by (simp add: slot_nth)
  have sh: "\<And>e. slot t (unat ?idx' + e) = slot t (?x + Suc e)"
    unfolding x' using wf by (simp add: slot_mod window_shift)
  from find_within_cases[OF xlt, of m k v d]
  show ?case
  proof (elim disjE conjE)
    assume st: "find_within (Suc m) t k v idx d = find_within m t k v ?idx' (d + 1)"
      and occ: "occupied (table_m t ! ?x)"
    from Suc.prems(3) obtain e where e: "e < Suc m" "\<not> occupied (slot t (?x + e))" by blast
    hence "e \<noteq> 0" using occ s0 by metis
    then obtain e' where "e = Suc e'" by (cases e) auto
    hence "\<exists>e<m. \<not> occupied (slot t (unat ?idx' + e))" unfolding sh using e by auto
    thus ?thesis unfolding st using wf x'lt by (intro Suc.IH) simp_all
  qed blast+
qed

lemma find_within_full:
  assumes inv: "rh_inv n t" and n14: "n \<le> 14"
  shows "unat idx < 2 ^ n \<Longrightarrow> s + m = 2 ^ n
     \<Longrightarrow> \<exists>b w. find_within (Suc m) t k v idx (of_nat s) = Some (Inr (b, w))"
proof (induction m arbitrary: s idx)
  case 0
  let ?x = "unat idx"
  have wf: "well_formed n t" using inv by (simp add: rh_inv_def)
  have len: "length (table_m t) = 2 ^ n" using wf by (simp add: well_formed_def)
  have xlt: "?x < length (table_m t)" using 0(1) len by simp
  have s: "s = 2 ^ n" using 0(2) by simp
  have "(2::nat) ^ n \<le> 2 ^ 14" using n14 by (intro power_increasing) simp_all
  hence c15: "(2::nat) ^ n < 2 ^ 15" by simp
  have miss: "\<not> occupied (table_m t ! ?x) \<or> psl (table_m t ! ?x) <s of_nat s"
  proof (cases "occupied (table_m t ! ?x)")
    case True
    have "slot_ok t ?x" using inv 0(1) by (simp add: rh_inv_def)
    hence p: "psl (table_m t ! ?x) = of_nat (displacement t ?x)" using True by (simp add: slot_ok_def)
    have d: "displacement t ?x < 2 ^ n" using wf by (rule displacement_lt)
    hence "displacement t ?x < 2 ^ 15" using c15 by linarith
    hence "sint (of_nat (displacement t ?x) :: 16 word) = int (displacement t ?x)"
      by (rule sint_of_nat_small)
    moreover have "sint (of_nat s :: 16 word) = int s"
      using c15 s by (intro sint_of_nat_small) simp
    ultimately show ?thesis using p d s by (simp add: word_sless_alt)
  qed simp
  show ?case using find_within_miss[OF xlt miss] by blast
next
  case (Suc m)
  let ?x = "unat idx"
  let ?idx' = "(idx + 1) AND mask_m t"
  have wf: "well_formed n t" using inv by (simp add: rh_inv_def)
  have n: "n < 64" and mk: "mask_m t = 2 ^ n - 1" and len: "length (table_m t) = 2 ^ n"
    using wf by (simp_all add: well_formed_def)
  have xlt: "?x < length (table_m t)" using Suc.prems(1) len by simp
  have x': "unat ?idx' = Suc ?x mod 2 ^ n" using unat_next_idx[OF n Suc.prems(1)] mk by simp
  have x'lt: "unat ?idx' < 2 ^ n" unfolding x' by simp
  have d': "(of_nat s :: 16 word) + 1 = of_nat (Suc s)" by simp
  from find_within_cases[OF xlt, of "Suc m" k v "of_nat s"]
  show ?case
  proof (elim disjE conjE)
    assume st: "find_within (Suc (Suc m)) t k v idx (of_nat s)
                = find_within (Suc m) t k v ?idx' (of_nat s + 1)"
    show ?thesis unfolding st d' using x'lt Suc.prems(2) by (intro Suc.IH) simp_all
  qed blast+
qed

lemma all_occupied:
  "count_occupied T = length T \<Longrightarrow> i < length T \<Longrightarrow> occupied (T ! i)"
  using count_list_lt_length[of i "map occupied T" True]
  by (auto simp: count_flags)

section \<open>Tables of colliding keys\<close>

lemma xorshift_involution:
  "(y XOR drop_bit 33 y) XOR drop_bit 33 (y XOR drop_bit 33 y) = (y::64 word)"
  by (rule bit_word_eqI) (auto simp: bit_simps dest: bit_imp_le_length)

lemma hash_unhash: "hash (unhash x) = x"
proof -
  let ?f = "\<lambda>y::64 word. y XOR drop_bit 33 y"
  have c: "(0x4f74430c22a54005 :: 64 word) * 0xff51afd7ed558ccd = 1" by simp
  have "hash (unhash x) = ?f (?f (?f (?f x * 0x4f74430c22a54005)) * 0xff51afd7ed558ccd)"
    by (simp only: hash_def unhash_def Let_def)
  also have "?f (?f (?f x * 0x4f74430c22a54005)) = ?f x * 0x4f74430c22a54005"
    by (rule xorshift_involution)
  also have "?f x * 0x4f74430c22a54005 * 0xff51afd7ed558ccd = ?f x"
    using c by (simp only: mult.assoc mult_1_right)
  also have "?f (?f x) = x" by (rule xorshift_involution)
  finally show ?thesis .
qed

lemma ideal_colliding: "well_formed n t \<Longrightarrow> ideal t (colliding_key n j) = 0"
proof -
  assume wf: "well_formed n t"
  have "push_bit n (of_nat j :: 64 word) AND (2 ^ n - 1) = 0"
    by (simp flip: mask_eq_exp_minus_1 take_bit_eq_mask add: take_bit_push_bit)
  thus ?thesis using wf by (simp add: ideal_def colliding_key_def hash_unhash well_formed_def)
qed

lemma unat_push_bit_small:
  assumes "n + k \<le> 64" "j < 2 ^ k"
  shows "unat (push_bit n (of_nat j :: 64 word)) = j * 2 ^ n"
proof -
  have "j * 2 ^ n < 2 ^ k * 2 ^ n" using assms(2) by simp
  also have "\<dots> = (2::nat) ^ (n + k)" by (simp add: power_add)
  also have "\<dots> \<le> 2 ^ LENGTH(64)" using assms(1) by (intro power_increasing) simp_all
  finally have lt: "j * 2 ^ n < 2 ^ LENGTH(64)" .
  have "push_bit n (of_nat j :: 64 word) = of_nat (j * 2 ^ n)"
    by (simp add: push_bit_of_nat push_bit_eq_mult)
  also have "unat (of_nat (j * 2 ^ n) :: 64 word) = j * 2 ^ n mod 2 ^ LENGTH(64)"
    by (rule unat_of_nat)
  also have "\<dots> = j * 2 ^ n" using lt by (rule mod_less)
  finally show ?thesis .
qed

lemma colliding_inj:
  assumes "n + k \<le> 64" "j < 2 ^ k" "j' < 2 ^ k" "colliding_key n j = colliding_key n j'"
  shows "j = j'"
proof -
  have "hash (colliding_key n j) = hash (colliding_key n j')" using assms(4) by simp
  hence "push_bit n (of_nat j :: 64 word) = push_bit n (of_nat j')"
    by (simp add: colliding_key_def hash_unhash)
  hence "unat (push_bit n (of_nat j :: 64 word)) = unat (push_bit n (of_nat j' :: 64 word))"
    by (rule arg_cong)
  hence "j * 2 ^ n = j' * 2 ^ n"
    by (simp only: unat_push_bit_small[OF assms(1,2)] unat_push_bit_small[OF assms(1,3)])
  thus ?thesis by simp
qed

lemma distinct_colliding:
  assumes "n + k \<le> 64" "m \<le> 2 ^ k"
  shows "distinct (map fst (colliding_kvs n m))"
proof -
  have "inj_on (colliding_key n) (set [0..<m])"
  proof (rule inj_onI)
    fix j j' assume "j \<in> set [0..<m]" "j' \<in> set [0..<m]"
      and e: "colliding_key n j = colliding_key n j'"
    hence "j < 2 ^ k" "j' < 2 ^ k" using assms(2) by auto
    thus "j = j'" using colliding_inj[OF assms(1) _ _ e] by simp
  qed
  hence "distinct (map (colliding_key n) [0..<m])" by (simp add: distinct_map)
  moreover have "map fst (colliding_kvs n m) = map (colliding_key n) [0..<m]"
    by (simp add: colliding_kvs_def comp_def)
  ultimately show ?thesis by simp
qed

lemma down_closed_initial:
  fixes S :: "nat set"
  assumes fin: "finite S" and dc: "\<And>i s. i \<in> S \<Longrightarrow> s < i \<Longrightarrow> s \<in> S"
  shows "S = {..<card S}"
proof -
  have sub: "S \<subseteq> {..<card S}"
  proof
    fix i assume i: "i \<in> S"
    have "{..i} \<subseteq> S"
    proof
      fix s assume "s \<in> {..i}"
      hence "s = i \<or> s < i" by auto
      thus "s \<in> S" using i dc by blast
    qed
    hence "card {..i} \<le> card S" using fin by (rule card_mono[rotated])
    thus "i \<in> {..<card S}" by simp
  qed
  have "card {..<card S} = card S" by simp
  thus ?thesis using sub by (metis card_subset_eq finite_lessThan)
qed

lemma colliding_fill:
  assumes n: "n < 64" and nk: "n + k \<le> 64" and mk: "m \<le> 2 ^ k" and mn: "m \<le> 2 ^ n"
    and t: "t = insert_all (colliding_kvs n m) (new_BenchRHH (2 ^ n))"
  shows "rh_inv n t"
    and "\<And>i. i < 2 ^ n \<Longrightarrow> occupied (table_m t ! i) \<longleftrightarrow> i < m"
    and "\<And>i. i < m \<Longrightarrow> psl (table_m t ! i) = of_nat i"
    and "\<And>i. i < m \<Longrightarrow> \<exists>j<m. key (table_m t ! i) = colliding_key n j"
    and "\<And>i. i < m \<Longrightarrow> displacement t i = i"
    and "count_occupied (table_m t) = m"
proof -
  show inv: "rh_inv n t" unfolding t using n by (rule fill_rh_inv)
  have wf: "well_formed n t" using inv by (simp add: rh_inv_def)
  have len: "length (table_m t) = 2 ^ n" using wf by (simp add: well_formed_def)
  have lk: "length (colliding_kvs n m) = m" by (simp add: colliding_kvs_def)
  have e: "entries t = mset (colliding_kvs n m)"
    unfolding t using n distinct_colliding[OF nk mk] mn lk by (intro fill_entries) simp_all
  show cnt: "count_occupied (table_m t) = m"
    using size_entries[of t] e lk by simp
  have keys: "\<exists>j<m. key (table_m t ! i) = colliding_key n j"
    if "i < 2 ^ n" "occupied (table_m t ! i)" for i
  proof -
    have "(key (table_m t ! i), value_B (table_m t ! i)) \<in># entries t"
      unfolding entries_member using that len by auto
    hence "(key (table_m t ! i), value_B (table_m t ! i)) \<in> set (colliding_kvs n m)"
      unfolding e by simp
    thus ?thesis by (auto simp: colliding_kvs_def)
  qed
  have disp: "displacement t i = i" if "i < 2 ^ n" "occupied (table_m t ! i)" for i
  proof -
    from keys[OF that] obtain j where "key (table_m t ! i) = colliding_key n j" by blast
    hence "ideal t (key (table_m t ! i)) = 0" using ideal_colliding[OF wf] by simp
    thus ?thesis using that(1) len by (simp add: displacement_def)
  qed
  have home: "ideal t (key (table_m t ! i)) = 0" if "i < 2 ^ n" "occupied (table_m t ! i)" for i
  proof -
    from keys[OF that] obtain j where "key (table_m t ! i) = colliding_key n j" by blast
    thus ?thesis using ideal_colliding[OF wf] by simp
  qed
  let ?S = "{i. i < length (table_m t) \<and> occupied (table_m t ! i)}"
  have fin: "finite ?S" by simp
  have card: "card ?S = m"
    using cnt by (simp add: count_occupied_def length_filter_conv_card)
  have dc: "s \<in> ?S" if "i \<in> ?S" "s < i" for i s
  proof -
    have i: "i < 2 ^ n" "occupied (table_m t ! i)" using that(1) len by simp_all
    have "slot_ok t i" using inv i(1) by (simp add: rh_inv_def)
    hence "path_ok t 0 i" using i(2) disp[OF i] home[OF i] by (simp add: slot_ok_def)
    hence "occupied (slot t (0 + s))" using that(2) by (simp add: path_ok_def)
    moreover have "s < 2 ^ n" using that(2) i(1) by simp
    ultimately show ?thesis using wf len by (simp add: slot_nth)
  qed
  have S: "?S = {..<m}" using down_closed_initial[OF fin dc] card by simp
  show occ: "occupied (table_m t ! i) \<longleftrightarrow> i < m" if "i < 2 ^ n" for i
  proof -
    have "i \<in> ?S \<longleftrightarrow> i \<in> {..<m}" using S by simp
    thus ?thesis using that len by simp
  qed
  show "psl (table_m t ! i) = of_nat i" if "i < m" for i
  proof -
    have i: "i < 2 ^ n" using that mn by simp
    have o: "occupied (table_m t ! i)" using occ[OF i] that by simp
    have "slot_ok t i" using inv i by (simp add: rh_inv_def)
    thus ?thesis using o disp[OF i o] by (simp add: slot_ok_def)
  qed
  show "\<exists>j<m. key (table_m t ! i) = colliding_key n j" if "i < m" for i
  proof -
    have i: "i < 2 ^ n" using that mn by simp
    have o: "occupied (table_m t ! i)" using occ[OF i] that by simp
    show ?thesis using keys[OF i o] .
  qed
  show "displacement t i = i" if "i < m" for i
  proof -
    have i: "i < 2 ^ n" using that mn by simp
    have o: "occupied (table_m t ! i)" using occ[OF i] that by simp
    show ?thesis using disp[OF i o] .
  qed
qed

section \<open>A lookup that never returns\<close>

lemma no_exit_wrapped: "\<not> (of_nat (s mod 2 ^ 15) :: 16 word) <s of_nat s"
proof -
  have a: "sint (of_nat (s mod 2 ^ 15) :: 16 word) = int (s mod 2 ^ 15)"
    by (rule sint_of_nat_small) simp
  have "sint (of_nat s :: 16 word) = signed_take_bit 15 (int s)"
    by (simp add: signed_of_nat)
  also have "\<dots> = take_bit (Suc 15) (int s) - 2 ^ Suc 15 * of_bool (bit (int s) 15)"
    by (rule signed_take_bit_eq_take_bit_minus)
  also have "take_bit (Suc 15) (int s) = 2 ^ 15 * of_bool (bit (int s) 15) + take_bit 15 (int s)"
    by (rule take_bit_Suc_from_most)
  finally have "sint (of_nat s :: 16 word) \<le> take_bit 15 (int s)"
    by (cases "bit (int s) 15") simp_all
  also have "take_bit 15 (int s) = int (s mod 2 ^ 15)"
    by (simp add: take_bit_eq_mod zmod_int)
  finally show ?thesis using a by (simp add: word_sless_alt)
qed

lemma find_loop_diverges:
  assumes step: "\<And>idx d. Orb idx d \<Longrightarrow>
      unat idx < length (table_m t) \<and> occupied (table_m t ! unat idx)
      \<and> \<not> psl (table_m t ! unat idx) <s d \<and> key (table_m t ! unat idx) \<noteq> k
      \<and> Orb ((idx + 1) AND mask_m t) (d + 1)"
    and start: "Orb idx0 d0"
  shows "find_loop t k v idx0 d0 = None"
proof (rule ccontr)
  assume "find_loop t k v idx0 d0 \<noteq> None"
  then obtain r where r: "find_loop t k v idx0 d0 = Some r" by auto
  have "\<not> (t = t \<and> k = k \<and> Orb idx0 d0)"
  proof (rule find_loop.raw_induct[where P = "\<lambda>t' k' v' idx d r'. \<not> (t' = t \<and> k' = k \<and> Orb idx d)", OF _ r])
    fix f :: "BenchRHH \<Rightarrow> 64 word \<Rightarrow> 64 word \<Rightarrow> 64 word \<Rightarrow> 16 word \<Rightarrow> (fault + bool \<times> 64 word) option"
    fix t' k' v' idx d r'
    assume IH: "\<And>t'' k'' v'' idx' d' y. f t'' k'' v'' idx' d' = Some y
                  \<Longrightarrow> \<not> (t'' = t \<and> k'' = k \<and> Orb idx' d')"
      and body: "(if length (table_m t') \<le> unat idx then Some (Inl OutOfBounds)
          else let entry = table_m t' ! unat idx
               in if \<not> occupied entry \<or> psl entry <s d then Some (Inr (False, v'))
                  else if key entry = k' then Some (Inr (True, value_B entry))
                  else f t' k' v' ((idx + 1) AND mask_m t') (d + 1)) = Some r'"
    show "\<not> (t' = t \<and> k' = k \<and> Orb idx d)"
    proof
      assume o: "t' = t \<and> k' = k \<and> Orb idx d"
      note s = step[of idx d]
      have "f t k v' ((idx + 1) AND mask_m t) (d + 1) = Some r'"
        using body o s by (simp add: Let_def)
      from IH[OF this] show False using o s by simp
    qed
  qed
  thus False using start by simp
qed

lemma overflow_table_alt:
  "overflow_table = insert_all (colliding_kvs 16 (2 ^ 15 + 1)) (new_BenchRHH (2 ^ 16))"
  by (simp add: overflow_table_def)

lemma saturated_table_alt:
  "saturated_table = insert_all (colliding_kvs 15 (2 ^ 15)) (new_BenchRHH (2 ^ 15))"
  by (simp add: saturated_table_def)

section \<open>Lookups that return\<close>

lemma find_within_absent:
  "key_absent t k \<Longrightarrow> find_within m t k v idx d = Some (Inr (b, w)) \<Longrightarrow> \<not> b \<and> w = v"
proof (induction m arbitrary: idx d)
  case 0
  then show ?case by simp
next
  case (Suc m)
  let ?e = "table_m t ! unat idx"
  show ?case
  proof (cases "unat idx < length (table_m t)")
    case False
    thus ?thesis using Suc.prems(2) by (simp add: find_within.simps)
  next
    case inb: True
    show ?thesis
    proof (cases "\<not> occupied ?e \<or> psl ?e <s d")
      case True
      have "find_within (Suc m) t k v idx d = Some (Inr (False, v))"
        using inb True by (rule find_within_miss)
      thus ?thesis using Suc.prems(2) by simp
    next
      case False
      hence o: "occupied ?e" and np: "\<not> psl ?e <s d" by simp_all
      have nk: "key ?e \<noteq> k" using Suc.prems(1) inb o by (simp add: key_absent_def)
      have "find_within (Suc m) t k v idx d = find_within m t k v ((idx + 1) AND mask_m t) (d + 1)"
        using inb o np nk by (rule find_within_step)
      thus ?thesis using Suc.IH[OF Suc.prems(1)] Suc.prems(2) by simp
    qed
  qed
qed

lemma find_returns_within:
  assumes n: "n < 64" and t: "t = insert_all kvs (new_BenchRHH (2 ^ n))"
  shows "count_occupied (table_m t) < 2 ^ n \<Longrightarrow>
           \<exists>b w. find_probes (2 ^ n) t k v = Some (Inr (b, w))"
    and "n \<le> 14 \<Longrightarrow> \<exists>b w. find_probes (2 ^ n + 1) t k v = Some (Inr (b, w))"
proof -
  have inv: "rh_inv n t" unfolding t using n by (rule fill_rh_inv)
  have wf: "well_formed n t" using inv by (simp add: rh_inv_def)
  have len: "length (table_m t) = 2 ^ n" using wf by (simp add: well_formed_def)
  let ?idx = "hash k AND mask_m t"
  have xlt: "unat ?idx < 2 ^ n" using ideal_lt[OF wf, of k] by (simp add: ideal_def)
  show "\<exists>b w. find_probes (2 ^ n) t k v = Some (Inr (b, w))"
    if room: "count_occupied (table_m t) < 2 ^ n"
  proof -
    from empty_slot_exists[of "table_m t"] room len obtain i where
      i: "i < 2 ^ n" "\<not> occupied (table_m t ! i)" by auto
    have "slot t (unat ?idx + (i + 2 ^ n - unat ?idx) mod 2 ^ n) = table_m t ! i"
      using wf mod_back[OF xlt i(1)] by (simp add: slot_mod)
    hence E: "\<exists>e<2 ^ n. \<not> occupied (slot t (unat ?idx + e))"
      using i(2) by (intro exI[of _ "(i + 2 ^ n - unat ?idx) mod 2 ^ n"]) simp
    show ?thesis unfolding find_probes_def using find_within_empty[OF wf xlt E] .
  qed
  show "\<exists>b w. find_probes (2 ^ n + 1) t k v = Some (Inr (b, w))" if n14: "n \<le> 14"
    unfolding find_probes_def
    using find_within_full[OF inv n14 xlt, of 0 "2 ^ n" k v] by simp
qed

lemma find_probes_rhh:
  "find_probes m t k v = Some r \<Longrightarrow> find_rhh t k v = Some r"
  unfolding find_probes_def find_rhh_def by (rule find_within_loop)

lemma find_absent_returns_false:
  assumes n: "n < 64" and t: "t = insert_all kvs (new_BenchRHH (2 ^ n))"
    and ab: "key_absent t k" and ok: "count_occupied (table_m t) < 2 ^ n \<or> n \<le> 14"
  shows "find_rhh t k v = Some (Inr (False, v))"
proof -
  from ok find_returns_within[OF n t, of k v]
  obtain m b w where r: "find_probes m t k v = Some (Inr (b, w))" by blast
  hence "\<not> b \<and> w = v" unfolding find_probes_def using ab by (intro find_within_absent)
  thus ?thesis using find_probes_rhh[OF r] by simp
qed

section \<open>Only inserted keys are stored\<close>

lemma entries_mem_slot:
  "i < length (table_m t) \<Longrightarrow> occupied (table_m t ! i) \<Longrightarrow>
   (key (table_m t ! i), value_B (table_m t ! i)) \<in># entries t"
  unfolding entries_member by blast

lemma insert_loop_keys:
  "occupied cur \<Longrightarrow> unat idx < length (table_m t) \<Longrightarrow> length (table_m t) = unat (cap_m t)
   \<Longrightarrow> mask_m t = cap_m t - 1
   \<Longrightarrow> set_mset (entries (insert_loop m k t cur idx))
         \<subseteq> insert (key cur, value_B cur) (set_mset (entries t))"
proof (induction m arbitrary: t cur idx)
  case 0
  then show ?case by auto
next
  case (Suc m)
  let ?x = "unat idx"
  let ?e = "table_m t ! ?x"
  let ?idx' = "(idx + 1) AND mask_m t"
  have "0 < unat (cap_m t)" using Suc.prems(2,3) by linarith
  hence c0: "cap_m t \<noteq> 0" by (simp add: unat_gt_0)
  have idx': "unat ?idx' < length (table_m t)"
    using and_cm1_less[OF c0, of "idx + 1"] Suc.prems(3,4) by simp
  show ?case
  proof (cases "occupied ?e")
    case False
    have eq: "insert_loop (Suc m) k t cur idx = (put t ?x cur)\<lparr>size_m := size_m t + 1\<rparr>"
      using insert_loop_empty[OF False, of m k cur] by (simp only: put_size)
    show ?thesis unfolding eq
      using entries_put_empty[OF Suc.prems(2) False Suc.prems(1)] by simp
  next
    case occ: True
    show ?thesis
    proof (cases "key ?e = k")
      case True
      have eq: "insert_loop (Suc m) k t cur idx = t" using occ True by (rule insert_loop_dup)
      show ?thesis unfolding eq by auto
    next
      case nk: False
      show ?thesis
      proof (cases "psl ?e <s psl cur")
        case True
        let ?t1 = "put t ?x cur"
        let ?c1 = "?e\<lparr>psl := psl ?e + 1\<rparr>"
        have eq: "insert_loop (Suc m) k t cur idx = insert_loop m k ?t1 ?c1 ?idx'"
          using insert_loop_swap[OF occ nk True] by (simp add: put_def)
        have sw: "entries ?t1 + {#(key ?e, value_B ?e)#} = entries t + {#(key cur, value_B cur)#}"
          using entries_put_swap[OF Suc.prems(2) occ Suc.prems(1)] .
        have "set_mset (entries ?t1) \<subseteq> set_mset (entries ?t1 + {#(key ?e, value_B ?e)#})"
          by auto
        hence s1: "set_mset (entries ?t1) \<subseteq> insert (key cur, value_B cur) (set_mset (entries t))"
          unfolding sw by simp
        have e_in: "(key ?e, value_B ?e) \<in># entries t"
          using entries_mem_slot[OF Suc.prems(2) occ] .
        have "set_mset (entries (insert_loop m k ?t1 ?c1 ?idx'))
                \<subseteq> insert (key ?c1, value_B ?c1) (set_mset (entries ?t1))"
        proof (rule Suc.IH)
          show "occupied ?c1" using occ by simp
          show "unat ?idx' < length (table_m ?t1)" using idx' by simp
          show "length (table_m ?t1) = unat (cap_m ?t1)" using Suc.prems(3) by (simp add: put_def)
          show "mask_m ?t1 = cap_m ?t1 - 1" using Suc.prems(4) by (simp add: put_def)
        qed
        hence "set_mset (entries (insert_loop m k ?t1 ?c1 ?idx'))
                \<subseteq> insert (key cur, value_B cur) (set_mset (entries t))"
          using s1 e_in by auto
        thus ?thesis unfolding eq by (simp add: put_def)
      next
        case False
        let ?c1 = "cur\<lparr>psl := psl cur + 1\<rparr>"
        have eq: "insert_loop (Suc m) k t cur idx = insert_loop m k t ?c1 ?idx'"
          using occ nk False by (rule insert_loop_keep)
        have "set_mset (entries (insert_loop m k t ?c1 ?idx'))
                \<subseteq> insert (key ?c1, value_B ?c1) (set_mset (entries t))"
          using Suc.prems idx' by (intro Suc.IH) simp_all
        thus ?thesis unfolding eq by simp
      qed
    qed
  qed
qed

lemma insert_rhh_keys:
  assumes "size_inv t"
  shows "set_mset (entries (insert_rhh k v t)) \<subseteq> insert (k, v) (set_mset (entries t))"
proof (cases "cap_m t = 0")
  case True
  thus ?thesis by (auto simp: insert_rhh_def)
next
  case False
  have m: "mask_m t = cap_m t - 1" and l: "length (table_m t) = unat (cap_m t)"
    using assms by (simp_all add: size_inv_def)
  have x: "unat (hash k AND mask_m t) < length (table_m t)"
    using and_cm1_less[OF False, of "hash k"] m l by simp
  show ?thesis unfolding insert_rhh_def
    using insert_loop_keys[OF _ x l m, of "\<lparr>key = k, value_B = v, psl = 0, occupied = True\<rparr>"]
    by simp
qed

lemma insert_all_keys:
  "size_inv t \<Longrightarrow> set_mset (entries (insert_all kvs t)) \<subseteq> set kvs \<union> set_mset (entries t)"
proof (induction kvs arbitrary: t)
  case Nil
  then show ?case by simp
next
  case (Cons kv kvs)
  obtain k v where kv: "kv = (k, v)" by (cases kv)
  have "set_mset (entries (insert_all kvs (insert_rhh k v t)))
          \<subseteq> set kvs \<union> set_mset (entries (insert_rhh k v t))"
    using Cons.IH[OF insert_rhh_size_inv[OF Cons.prems]] .
  thus ?case unfolding kv using insert_rhh_keys[OF Cons.prems, of k v] by auto
qed

lemma never_inserted_absent:
  "k \<notin> fst ` set kvs \<Longrightarrow> key_absent (insert_all kvs (new_BenchRHH c)) k"
  unfolding key_absent_entries
  using insert_all_keys[OF new_size_inv, of kvs c] by (auto simp: new_entries)

lemma find_never_inserted_returns_false:
  assumes "n < 64" and "t = insert_all kvs (new_BenchRHH (2 ^ n))"
    and "k \<notin> fst ` set kvs" and "count_occupied (table_m t) < 2 ^ n \<or> n \<le> 14"
  shows "find_rhh t k v = Some (Inr (False, v))"
  using find_absent_returns_false[OF assms(1,2) _ assms(4)] never_inserted_absent[OF assms(3)]
  unfolding assms(2) by simp

section \<open>The first value written for a key\<close>

lemma key_absent_after_insert:
  assumes "entries t1 = entries t + {#(k, v)#}"
  shows "key_absent t1 k' \<longleftrightarrow> key_absent t k' \<and> k' \<noteq> k"
  unfolding key_absent_entries assms by auto

lemma insert_all_first_writes:
  "rh_inv n t
   \<Longrightarrow> count_occupied (table_m t) + card {k \<in> fst ` set kvs. key_absent t k} \<le> 2 ^ n
   \<Longrightarrow> set_mset (entries (insert_all kvs t))
         = set_mset (entries t) \<union> {(k, v). map_of kvs k = Some v \<and> key_absent t k}"
proof (induction kvs arbitrary: t)
  case Nil
  then show ?case by simp
next
  case (Cons kv kvs)
  obtain k v where kv: "kv = (k, v)" by (cases kv)
  let ?t1 = "insert_rhh k v t"
  let ?N = "\<lambda>t kvs. {k \<in> fst ` set kvs. key_absent t k}"
  have inv: "rh_inv n t" by (rule Cons.prems(1))
  have wf: "well_formed n t" using inv by (simp add: rh_inv_def)
  have len: "length (table_m t) = 2 ^ n" using wf by (simp add: well_formed_def)
  have i1: "rh_inv n ?t1" using inv by (rule insert_rhh_rh_inv)
  have fin: "finite (?N t (kv # kvs))" by simp
  show ?case
  proof (cases "key_absent t k")
    case True
    have kin: "k \<in> ?N t (kv # kvs)" using True kv by simp
    hence "0 < card (?N t (kv # kvs))" using fin card_gt_0_iff by blast
    hence room: "count_occupied (table_m t) < 2 ^ n" using Cons.prems(2) by linarith
    have e1: "entries ?t1 = entries t + {#(k, v)#}"
      using insert_rhh_absent[OF wf True room] by simp
    have ab: "\<And>k'. key_absent ?t1 k' \<longleftrightarrow> key_absent t k' \<and> k' \<noteq> k"
      using key_absent_after_insert[OF e1] .
    have "?N ?t1 kvs = ?N t (kv # kvs) - {k}" using ab kv by auto
    hence "card (?N ?t1 kvs) = card (?N t (kv # kvs)) - 1" using kin fin by simp
    moreover have "count_occupied (table_m ?t1) = Suc (count_occupied (table_m t))"
      using e1 size_entries[of ?t1] size_entries[of t] by simp
    ultimately have r1: "count_occupied (table_m ?t1) + card (?N ?t1 kvs) \<le> 2 ^ n"
      using Cons.prems(2) \<open>0 < card (?N t (kv # kvs))\<close> by linarith
    have A: "{(k', v'). map_of ((k, v) # kvs) k' = Some v' \<and> key_absent t k'}
          = insert (k, v) {(k', v'). map_of kvs k' = Some v' \<and> key_absent ?t1 k'}"
    proof (rule set_eqI)
      fix p :: "64 word \<times> 64 word"
      obtain k' v' where p: "p = (k', v')" by (cases p)
      show "p \<in> {(k', v'). map_of ((k, v) # kvs) k' = Some v' \<and> key_absent t k'}
        \<longleftrightarrow> p \<in> insert (k, v) {(k', v'). map_of kvs k' = Some v' \<and> key_absent ?t1 k'}"
        unfolding p using ab[of k'] True by (cases "k' = k") auto
    qed
    have L: "set_mset (entries ?t1) = insert (k, v) (set_mset (entries t))"
      unfolding e1 by simp
    have "set_mset (entries (insert_all ((k, v) # kvs) t))
          = set_mset (entries (insert_all kvs ?t1))" by simp
    also have "\<dots> = set_mset (entries ?t1)
          \<union> {(k', v'). map_of kvs k' = Some v' \<and> key_absent ?t1 k'}"
      using Cons.IH[OF i1 r1] .
    also have "\<dots> = set_mset (entries t)
          \<union> insert (k, v) {(k', v'). map_of kvs k' = Some v' \<and> key_absent ?t1 k'}"
      unfolding L by blast
    finally show ?thesis unfolding kv A .
  next
    case False
    from present_index[OF False] obtain i where
      i: "i < 2 ^ n" "occupied (table_m t ! i)" "key (table_m t ! i) = k"
      using len by auto
    have same: "?t1 = t" using insert_rhh_present[OF inv i(1,2), of v] i(3) by simp
    have "?N t kvs \<subseteq> ?N t (kv # kvs)" by auto
    hence "card (?N t kvs) \<le> card (?N t (kv # kvs))" using fin by (rule card_mono[rotated])
    hence r1: "count_occupied (table_m t) + card (?N t kvs) \<le> 2 ^ n"
      using Cons.prems(2) by linarith
    have A: "{(k', v'). map_of ((k, v) # kvs) k' = Some v' \<and> key_absent t k'}
          = {(k', v'). map_of kvs k' = Some v' \<and> key_absent t k'}"
    proof (rule set_eqI)
      fix p :: "64 word \<times> 64 word"
      obtain k' v' where p: "p = (k', v')" by (cases p)
      show "p \<in> {(k', v'). map_of ((k, v) # kvs) k' = Some v' \<and> key_absent t k'}
        \<longleftrightarrow> p \<in> {(k', v'). map_of kvs k' = Some v' \<and> key_absent t k'}"
        unfolding p using False by (cases "k' = k") auto
    qed
    have "set_mset (entries (insert_all ((k, v) # kvs) t))
          = set_mset (entries (insert_all kvs ?t1))" by simp
    also have "\<dots> = set_mset (entries (insert_all kvs t))" unfolding same ..
    also have "\<dots> = set_mset (entries t)
          \<union> {(k', v'). map_of kvs k' = Some v' \<and> key_absent t k'}"
      using Cons.IH[OF inv r1] .
    finally show ?thesis unfolding kv A .
  qed
qed

lemma fill_first_writes:
  assumes n: "n < 64" and c: "card (fst ` set kvs) \<le> 2 ^ n"
  shows "set_mset (entries (insert_all kvs (new_BenchRHH (2 ^ n))))
          = {(k, v). map_of kvs k = Some v}"
proof -
  have "{k \<in> fst ` set kvs. key_absent (new_BenchRHH (2 ^ n)) k} = fst ` set kvs"
    by (simp add: new_key_absent)
  hence "count_occupied (table_m (new_BenchRHH (2 ^ n)))
          + card {k \<in> fst ` set kvs. key_absent (new_BenchRHH (2 ^ n)) k} \<le> 2 ^ n"
    using c by (simp add: new_count)
  from insert_all_first_writes[OF new_rh_inv[OF n] this]
  show ?thesis by (simp add: new_entries new_key_absent)
qed

lemma find_first_write:
  assumes n: "n < 64" and c: "card (fst ` set kvs) \<le> 2 ^ n" and m: "map_of kvs k = Some v"
  shows "find_rhh (insert_all kvs (new_BenchRHH (2 ^ n))) k v0 = Some (Inr (True, v))"
proof -
  let ?t = "insert_all kvs (new_BenchRHH (2 ^ n))"
  have inv: "rh_inv n ?t" using n by (rule fill_rh_inv)
  have len: "length (table_m ?t) = 2 ^ n" using inv by (simp add: rh_inv_def well_formed_def)
  have "(k, v) \<in># entries ?t" using fill_first_writes[OF n c] m by auto
  then obtain i where i: "i < 2 ^ n" "occupied (table_m ?t ! i)" "key (table_m ?t ! i) = k"
      "value_B (table_m ?t ! i) = v"
    unfolding entries_member len by blast
  show ?thesis using find_rhh_present[OF inv i(1,2), of v0] i(3,4) by simp
qed

section \<open>Evaluation on concrete tables\<close>

lemma insert_loop_numeral:
  "insert_loop (numeral w) k t cur idx =
     (let entry = table_m t ! unat idx in
      if \<not> occupied entry then
        t\<lparr>table_m := (table_m t)[unat idx := cur], size_m := size_m t + 1\<rparr>
      else if key entry = k then t
      else if psl entry <s psl cur then
        insert_loop (pred_numeral w) k (t\<lparr>table_m := (table_m t)[unat idx := cur]\<rparr>)
          (entry\<lparr>psl := psl entry + 1\<rparr>) ((idx + 1) AND mask_m t)
      else
        insert_loop (pred_numeral w) k t (cur\<lparr>psl := psl cur + 1\<rparr>) ((idx + 1) AND mask_m t))"
  by (simp only: numeral_eq_Suc insert_loop.simps)

lemma find_within_numeral:
  "find_within (numeral w) t k v idx d =
     (if length (table_m t) \<le> unat idx then Some (Inl OutOfBounds)
      else
        let entry = table_m t ! unat idx in
        if \<not> occupied entry \<or> psl entry <s d then Some (Inr (False, v))
        else if key entry = k then Some (Inr (True, value_B entry))
        else find_within (pred_numeral w) t k v ((idx + 1) AND mask_m t) (d + 1))"
  by (simp only: numeral_eq_Suc find_within.simps)

lemma replicate_numeral_B: "replicate (numeral w) (x::Bucket) = x # replicate (pred_numeral w) x"
  by (simp add: numeral_eq_Suc)

lemmas eval_rhh = insert_rhh_def new_BenchRHH_def zero_Bucket_def hash_def find_rhh_def
  find_probes_def insert_loop_numeral find_within_numeral replicate_numeral_B Let_def
  insert_loop.simps find_within.simps
  word_sless_alt


section \<open>Construction\<close>

lemma ctor_allocated: "BenchRHH_ctor mem sz c = Some t \<Longrightarrow> t = new_BenchRHH c"
  by (simp add: BenchRHH_ctor_def split: if_splits)

lemma ctor_small: "mem \<Longrightarrow> unat c * sz < 2 ^ 64 \<Longrightarrow> BenchRHH_ctor mem sz c = Some (new_BenchRHH c)"
  by (simp add: BenchRHH_ctor_def)

lemma ctor_overflow: "2 ^ 64 \<le> unat c * sz \<Longrightarrow> BenchRHH_ctor mem sz c = None"
  by (simp add: BenchRHH_ctor_def)

text \<open>
  C9, as the specification states it: construction with a capacity that is zero or not a
  power of two fails fast with an explicit error and builds no table. The constructor has
  no check: for capacity 6 and for capacity 0, with the memory available, it builds a
  table like for any other value.
\<close>

theorem construct_invalid_capacity_counterexample:
  "\<not> power_of_two 6 \<and> \<not> power_of_two 0
   \<and> new_BenchRHH 6 = \<lparr>table_m = replicate 6 zero_Bucket, cap_m = 6, mask_m = 5, size_m = 0\<rparr>
   \<and> new_BenchRHH 0 = \<lparr>table_m = [], cap_m = 0, mask_m = 0xFFFFFFFFFFFFFFFF, size_m = 0\<rparr>
   \<and> BenchRHH_ctor True 24 6 = Some (new_BenchRHH 6)
   \<and> BenchRHH_ctor True 24 0 = Some (new_BenchRHH 0)"
proof -
  have a: "BenchRHH_ctor True 24 6 = Some (new_BenchRHH 6)"
    by (rule ctor_small) simp_all
  have b: "BenchRHH_ctor True 24 0 = Some (new_BenchRHH 0)"
    by (rule ctor_small) simp_all
  have c: "\<not> power_of_two 6 \<and> \<not> power_of_two 0
   \<and> new_BenchRHH 6 = \<lparr>table_m = replicate 6 zero_Bucket, cap_m = 6, mask_m = 5, size_m = 0\<rparr>
   \<and> new_BenchRHH 0 = \<lparr>table_m = [], cap_m = 0, mask_m = 0xFFFFFFFFFFFFFFFF, size_m = 0\<rparr>"
    by (simp add: power_of_two_def new_BenchRHH_def)
  show ?thesis using a b c by (simp only: simp_thms)
qed

text \<open>
  C9, amended: construction validates nothing. For every requested capacity, also zero
  and values that are not powers of two, when the allocation succeeds the constructor
  returns a table of exactly that capacity (no rounding) with mask \<open>c - 1\<close> modulo
  \<open>2 ^ 64\<close>, with \<open>c\<close> unoccupied slots and size zero, on which the size counter is
  consistent.
\<close>

theorem construct_any_capacity:
  assumes "BenchRHH_ctor mem sz c = Some t"
  shows "cap_m t = c \<and> mask_m t = c - 1 \<and> size_m t = 0 \<and> length (table_m t) = unat c
   \<and> count_occupied (table_m t) = 0 \<and> occ_flags t = replicate (unat c) False \<and> size_inv t"
proof -
  have t: "t = new_BenchRHH c" using assms by (rule ctor_allocated)
  show ?thesis unfolding t using new_size_inv[of c]
    by (simp add: new_BenchRHH_def count_occupied_def occ_flags_def zero_Bucket_def)
qed

theorem construct_any_capacity_witness:
  "BenchRHH_ctor True 24 6 = Some (new_BenchRHH 6)
   \<and> cap_m (new_BenchRHH 6) = 6 \<and> mask_m (new_BenchRHH 6) = 5
   \<and> length (table_m (new_BenchRHH 6)) = 6
   \<and> count_occupied (table_m (new_BenchRHH 6)) = 0"
proof -
  have a: "BenchRHH_ctor True 24 6 = Some (new_BenchRHH 6)"
    by (rule ctor_small) simp_all
  show ?thesis using a construct_any_capacity[OF a] by simp
qed

text \<open>
  Where the allocation cannot succeed the constructor still returns: a request for
  \<open>2 ^ 63\<close> slots of 24 bytes overflows \<open>size_t\<close>, and the object is left without an array.
\<close>

lemma ctor_null_table: "BenchRHH_ctor mem 24 (2 ^ 63) = None"
proof -
  have "unat ((2::64 word) ^ 63) = 2 ^ 63" by (rule unat_pow2_64) simp
  moreover have "(2::nat) ^ 64 \<le> 2 ^ 63 * 24" by simp
  ultimately show ?thesis by (intro ctor_overflow) (simp only:)
qed

section \<open>The size counter over sequences of operations\<close>

text \<open>
  C10: after construction the size is 0 and every slot is unoccupied; after any completed
  sequence of \<open>insert\<close> and \<open>find\<close> calls the counter equals the number of occupied
  slots; a \<open>find\<close> leaves the table as it is; and one \<open>insert\<close> raises the counter
  by one exactly when it fills a slot that was empty, and otherwise changes neither the
  counter nor any occupancy flag.
\<close>

theorem size_counter_invariant:
  assumes "run_ops ops (new_BenchRHH c) = Some t"
  shows "size_m (new_BenchRHH c) = 0
    \<and> occ_flags (new_BenchRHH c) = replicate (unat c) False
    \<and> unat (size_m t) = count_occupied (table_m t)
    \<and> (run_ops (Find k' # os) t = run_ops os t \<or> run_ops (Find k' # os) t = None)
    \<and> insert_effect t (insert_rhh k v t)"
proof -
  have inv: "size_inv t" using new_size_inv assms by (rule run_ops_size_inv)
  have a: "size_m (new_BenchRHH c) = 0" by (simp add: new_BenchRHH_def)
  have b: "occ_flags (new_BenchRHH c) = replicate (unat c) False"
    by (simp add: new_BenchRHH_def occ_flags_def zero_Bucket_def)
  have d: "unat (size_m t) = count_occupied (table_m t)" using inv by (simp add: size_inv_def)
  have e: "insert_effect t (insert_rhh k v t)" using insert_rhh_effect[OF inv] by simp
  show ?thesis using a b d e run_ops_find[of k' os t] by simp
qed



theorem size_counter_invariant_witness:
  "run_ops [Insert 1 5, Find 1, Insert 3 9, Insert 1 7] (new_BenchRHH 2) =
     Some \<lparr>table_m = [\<lparr>key = 1, value_B = 5, psl = 0, occupied = True\<rparr>,
                       \<lparr>key = 3, value_B = 9, psl = 1, occupied = True\<rparr>],
           cap_m = 2, mask_m = 1, size_m = 2\<rparr>
   \<and> unat (2::64 word) = count_occupied [\<lparr>key = 1, value_B = 5, psl = 0, occupied = True\<rparr>,
                       \<lparr>key = 3, value_B = 9, psl = 1, occupied = True\<rparr>]"
proof -
  have run: "run_ops [Insert 1 5, Find 1, Insert 3 9, Insert 1 7] (new_BenchRHH 2) =
     Some \<lparr>table_m = [\<lparr>key = 1, value_B = 5, psl = 0, occupied = True\<rparr>,
                       \<lparr>key = 3, value_B = 9, psl = 1, occupied = True\<rparr>],
           cap_m = 2, mask_m = 1, size_m = 2\<rparr>"
    by (simp add: eval_rhh find_loop.simps)
  show ?thesis using run size_counter_invariant[OF run] by simp
qed

section \<open>Insertion and lookup on a table of capacity \<open>2 ^ n\<close>\<close>

text \<open>
  C5: on a table constructed with capacity \<open>2 ^ n\<close>, no insertion of a sequence of fewer
  than \<open>2 ^ n\<close> distinct keys is rejected or dropped: every pair is stored (the stored
  pairs are exactly the inserted ones) and the size counter counts them all.
\<close>

theorem capacity_sufficiency:
  assumes "n < 64" and "distinct (map fst kvs)" and "length kvs < 2 ^ n"
  shows "entries (insert_all kvs (new_BenchRHH (2 ^ n))) = mset kvs
     \<and> unat (size_m (insert_all kvs (new_BenchRHH (2 ^ n)))) = length kvs"
proof -
  have e: "entries (insert_all kvs (new_BenchRHH (2 ^ n))) = mset kvs"
    using assms by (intro fill_entries) simp_all
  show ?thesis using e fill_size[of kvs "2 ^ n"] by simp
qed

theorem capacity_sufficiency_witness:
  "entries (insert_all [(1, 10), (2, 20), (3, 30)] (new_BenchRHH 4)) = {#(1, 10), (2, 20), (3, 30)#}
   \<and> unat (size_m (insert_all [(1, 10), (2, 20), (3, 30)] (new_BenchRHH 4))) = 3"
  using capacity_sufficiency[of 2 "[(1, 10), (2, 20), (3, 30)]"] by simp

text \<open>
  C1: round trip. After distinct keys were inserted into a table constructed with capacity
  \<open>2 ^ n\<close>, fewer of them than the capacity, \<open>find\<close> on each inserted key returns
  \<open>true\<close> and writes the value supplied at that key's insertion.
\<close>

theorem round_trip:
  assumes "n < 64" and "distinct (map fst kvs)" and "length kvs < 2 ^ n" and "(k, v) \<in> set kvs"
  shows "find_rhh (insert_all kvs (new_BenchRHH (2 ^ n))) k v0 = Some (Inr (True, v))"
proof -
  let ?t = "insert_all kvs (new_BenchRHH (2 ^ n))"
  have inv: "rh_inv n ?t" using assms(1) by (rule fill_rh_inv)
  have len: "length (table_m ?t) = 2 ^ n" using inv by (simp add: rh_inv_def well_formed_def)
  have "entries ?t = mset kvs" using assms by (intro fill_entries) simp_all
  hence "(k, v) \<in># entries ?t" using assms(4) by simp
  then obtain i where i: "i < 2 ^ n" "occupied (table_m ?t ! i)" "key (table_m ?t ! i) = k"
      "value_B (table_m ?t ! i) = v"
    unfolding entries_member len by blast
  show ?thesis using find_rhh_present[OF inv i(1,2), of v0] i(3,4) by simp
qed

theorem round_trip_witness:
  "find_rhh (insert_all [(1, 10), (2, 20), (3, 30)] (new_BenchRHH 4)) 2 0 = Some (Inr (True, 20))"
  using round_trip[of 2 "[(1, 10), (2, 20), (3, 30)]" 2 20 0] by simp

text \<open>
  C4: first write wins. In every table reached by insertions, inserting a key that some slot
  already holds, with any value, returns the table as it was (every slot, and so the stored
  value, and the size), and no two occupied slots hold the same key. The value a slot holds
  is the one supplied at the first insertion of its key (\<open>map_of\<close> takes the first pair
  with a given key), as long as the inserted sequence had no more distinct keys than the
  capacity.
\<close>

theorem duplicate_insert_noop:
  assumes "n < 64" and "t = insert_all kvs (new_BenchRHH (2 ^ n))"
    and "i < 2 ^ n" and "occupied (table_m t ! i)"
  shows "insert_rhh (key (table_m t ! i)) v' t = t \<and> keys_distinct t
       \<and> (card (fst ` set kvs) \<le> 2 ^ n \<longrightarrow>
            map_of kvs (key (table_m t ! i)) = Some (value_B (table_m t ! i)))"
proof -
  have inv: "rh_inv n t" unfolding assms(2) using assms(1) by (rule fill_rh_inv)
  have len: "length (table_m t) = 2 ^ n" using inv by (simp add: rh_inv_def well_formed_def)
  have a: "insert_rhh (key (table_m t ! i)) v' t = t \<and> keys_distinct t"
    using insert_rhh_present[OF inv assms(3,4)] inv by (simp add: rh_inv_def)
  have b: "card (fst ` set kvs) \<le> 2 ^ n \<longrightarrow>
            map_of kvs (key (table_m t ! i)) = Some (value_B (table_m t ! i))"
  proof
    assume c: "card (fst ` set kvs) \<le> 2 ^ n"
    have "(key (table_m t ! i), value_B (table_m t ! i)) \<in># entries t"
      using entries_mem_slot[of i t] assms(3,4) len by simp
    thus "map_of kvs (key (table_m t ! i)) = Some (value_B (table_m t ! i))"
      using fill_first_writes[OF assms(1) c] unfolding assms(2) by auto
  qed
  show ?thesis using a b by blast
qed

theorem duplicate_insert_noop_witness:
  "insert_rhh 1 9 (insert_all [(1, 5), (3, 7), (1, 8)] (new_BenchRHH 2))
     = insert_all [(1, 5), (3, 7), (1, 8)] (new_BenchRHH 2)
   \<and> keys_distinct (insert_all [(1, 5), (3, 7), (1, 8)] (new_BenchRHH 2))
   \<and> value_B (table_m (insert_all [(1, 5), (3, 7), (1, 8)] (new_BenchRHH 2)) ! 0) = 5"
proof -
  have o: "occupied (table_m (insert_all [(1, 5), (3, 7), (1, 8)] (new_BenchRHH 2)) ! 0)"
    and k: "key (table_m (insert_all [(1, 5), (3, 7), (1, 8)] (new_BenchRHH 2)) ! 0) = 1"
    by (simp_all add: eval_rhh)
  have t: "insert_all [(1, 5), (3, 7), (1, 8)] (new_BenchRHH 2)
           = insert_all [(1, 5), (3, 7), (1, 8)] (new_BenchRHH (2 ^ 1))" by simp
  have c: "card (fst ` set [(1::64 word, 5::64 word), (3, 7), (1, 8)]) \<le> 2 ^ 1"
    by (simp add: card_insert_if)
  show ?thesis using duplicate_insert_noop[OF _ t _ o, of 9] k c by simp
qed

section \<open>The full table\<close>

text \<open>
  C6, as the specification states it: an \<open>insert\<close> that exhausts all \<open>capacity\<close> probes
  reports \<open>TableFull\<close> to the caller. \<open>insert\<close> returns \<open>void\<close>, so all a caller has is
  the table afterwards. On the full table of capacity 1 that holds key 1, inserting the
  absent key 2 gives back the very table it was called on, which is also what the
  duplicate insertion of key 1 gives back: nothing tells the two calls apart.
\<close>

theorem table_full_unreported_counterexample:
  "count_occupied (table_m (insert_rhh 1 5 (new_BenchRHH 1))) = unat (cap_m (insert_rhh 1 5 (new_BenchRHH 1)))
   \<and> key (table_m (insert_rhh 1 5 (new_BenchRHH 1)) ! 0) \<noteq> 2
   \<and> insert_rhh 2 7 (insert_rhh 1 5 (new_BenchRHH 1)) = insert_rhh 1 5 (new_BenchRHH 1)
   \<and> insert_rhh 1 7 (insert_rhh 1 5 (new_BenchRHH 1)) = insert_rhh 1 5 (new_BenchRHH 1)"
  by (simp add: eval_rhh count_occupied_def)

text \<open>
  C6, amended: on a table reached by insertions in which every slot is occupied,
  \<open>insert\<close> returns normally and reports nothing: the size counter, the occupancy of
  every slot, the capacity and the mask are as before the call.
\<close>

theorem table_full_silent:
  assumes "t = insert_all kvs (new_BenchRHH c)"
    and "count_occupied (table_m t) = length (table_m t)"
  shows "size_m (insert_rhh k v t) = size_m t \<and> occ_flags (insert_rhh k v t) = occ_flags t
       \<and> cap_m (insert_rhh k v t) = cap_m t \<and> mask_m (insert_rhh k v t) = mask_m t"
proof -
  have inv: "size_inv t" unfolding assms(1) using new_size_inv by (rule insert_all_size_inv)
  have full: "\<And>i. i < length (occ_flags t) \<Longrightarrow> occ_flags t ! i"
    using all_occupied[OF assms(2)] by (simp add: occ_flags_def)
  have "insert_effect t (insert_rhh k v t)" using insert_rhh_effect[OF inv] by simp
  hence "occ_flags (insert_rhh k v t) = occ_flags t \<and> size_m (insert_rhh k v t) = size_m t"
    unfolding insert_effect_def using full by blast
  thus ?thesis using insert_rhh_effect[OF inv, of k v] by simp
qed

theorem table_full_silent_witness:
  "size_m (insert_rhh 2 7 (insert_all [(1, 5)] (new_BenchRHH 1))) = 1
   \<and> occ_flags (insert_rhh 2 7 (insert_all [(1, 5)] (new_BenchRHH 1))) = [True]"
proof -
  have f: "count_occupied (table_m (insert_all [(1, 5)] (new_BenchRHH 1)))
           = length (table_m (insert_all [(1, 5)] (new_BenchRHH 1)))"
    by (simp add: eval_rhh count_occupied_def)
  have "size_m (insert_all [(1, 5)] (new_BenchRHH 1)) = 1
       \<and> occ_flags (insert_all [(1, 5)] (new_BenchRHH 1)) = [True]"
    by (simp add: eval_rhh occ_flags_def)
  thus ?thesis using table_full_silent[OF refl f, of 2 7] by simp
qed

text \<open>
  C7: the specification says that on a full table the pair that \<open>insert\<close> drops is the
  new one and that the stored pairs are unchanged. The loop swaps before it knows that
  it will find no empty slot: on the full table of capacity 2 holding keys 0 and 2,
  inserting key 1 stores the new pair and loses the resident pair \<open>(2, 20)\<close>.
\<close>

theorem full_insert_evicts_resident:
  "entries (insert_all [(0, 10), (2, 20)] (new_BenchRHH 2)) = {#(0, 10), (2, 20)#}
   \<and> size_m (insert_all [(0, 10), (2, 20)] (new_BenchRHH 2)) = 2
   \<and> entries (insert_rhh 1 30 (insert_all [(0, 10), (2, 20)] (new_BenchRHH 2))) = {#(0, 10), (1, 30)#}"
  by (simp add: eval_rhh entries_def)

section \<open>The number of probes of a lookup\<close>

text \<open>
  C8, as the specification states it: on every table reached by insertions, \<open>find\<close>
  returns after at most \<open>capacity\<close> probes. On the full table of capacity 2 that holds
  keys 1 and 3, both with ideal slot 0, \<open>find\<close> of the absent key 5 has not returned
  after two probes; it returns \<open>false\<close> at the third.
\<close>

theorem find_probe_bound_counterexample:
  "cap_m (insert_all [(1, 5), (3, 7)] (new_BenchRHH 2)) = 2
   \<and> find_probes 2 (insert_all [(1, 5), (3, 7)] (new_BenchRHH 2)) 5 0 = None
   \<and> find_probes 3 (insert_all [(1, 5), (3, 7)] (new_BenchRHH 2)) 5 0 = Some (Inr (False, 0))
   \<and> find_rhh (insert_all [(1, 5), (3, 7)] (new_BenchRHH 2)) 5 0 = Some (Inr (False, 0))"
  by (simp add: eval_rhh find_loop.simps)

text \<open>
  C8, amended: on a table reached by insertions into a new table of capacity \<open>2 ^ n\<close>,
  \<open>find\<close> of any key returns after at most \<open>capacity\<close> probes when at least one slot
  is empty, and after at most \<open>capacity + 1\<close> probes, full table included, when the
  capacity is at most \<open>2 ^ 14\<close>.
\<close>

theorem find_probe_bound:
  assumes "n < 64" and "t = insert_all kvs (new_BenchRHH (2 ^ n))"
  shows "(count_occupied (table_m t) < 2 ^ n \<longrightarrow>
           (\<exists>b w. find_probes (2 ^ n) t k v = Some (Inr (b, w))
                 \<and> find_rhh t k v = Some (Inr (b, w))))
       \<and> (n \<le> 14 \<longrightarrow>
           (\<exists>b w. find_probes (2 ^ n + 1) t k v = Some (Inr (b, w))
                 \<and> find_rhh t k v = Some (Inr (b, w))))"
  using find_returns_within[OF assms, of k v] find_probes_rhh[of _ t k v] by blast

theorem find_probe_bound_witness:
  "(\<exists>b w. find_probes 4 (insert_all [(1, 5), (3, 7)] (new_BenchRHH 4)) 5 0 = Some (Inr (b, w))
         \<and> find_rhh (insert_all [(1, 5), (3, 7)] (new_BenchRHH 4)) 5 0 = Some (Inr (b, w)))
   \<and> (\<exists>b w. find_probes 5 (insert_all [(1, 5), (3, 7)] (new_BenchRHH 4)) 5 0 = Some (Inr (b, w))
         \<and> find_rhh (insert_all [(1, 5), (3, 7)] (new_BenchRHH 4)) 5 0 = Some (Inr (b, w)))"
proof -
  have c: "count_occupied (table_m (insert_all [(1, 5), (3, 7)] (new_BenchRHH 4))) < 2 ^ 2"
    by (simp add: eval_rhh count_occupied_def)
  show ?thesis
    using find_probe_bound[of 2 "insert_all [(1, 5), (3, 7)] (new_BenchRHH 4)" "[(1, 5), (3, 7)]" 5 0] c
    by simp
qed

section \<open>The stored probe sequence length\<close>

text \<open>
  C2, as the specification states it: after any sequence of insertions into a table of
  power-of-two capacity, the \<open>psl\<close> of every occupied slot \<open>i\<close> holding key \<open>k\<close> is
  \<open>(i - (hash(k) & mask)) mod capacity\<close>. The field is an \<open>int16_t\<close>. In the table of
  capacity \<open>2 ^ 16\<close> loaded with \<open>2 ^ 15 + 1\<close> keys of ideal slot 0, slot 32768 is
  occupied, its displacement is 32768, and its \<open>psl\<close> is \<open>-32768\<close>.
\<close>

theorem psl_overflow_counterexample:
  "occupied (table_m overflow_table ! 32768)
   \<and> sint (psl (table_m overflow_table ! 32768)) = - 32768
   \<and> int ((32768 + 65536 - unat (hash (key (table_m overflow_table ! 32768)) AND mask_m overflow_table))
            mod 65536) = 32768"
proof -
  let ?t = overflow_table
  note f = colliding_fill[of 16 16 "2 ^ 15 + 1" ?t, OF _ _ _ _ overflow_table_alt]
  have inv: "rh_inv 16 ?t" by (rule f(1)) simp_all
  have len: "length (table_m ?t) = 2 ^ 16" using inv by (simp add: rh_inv_def well_formed_def)
  have o: "occupied (table_m ?t ! (2 ^ 15))" using f(2)[of "2 ^ 15"] by simp
  have p: "psl (table_m ?t ! (2 ^ 15)) = of_nat (2 ^ 15)" by (rule f(3)) simp_all
  have d: "displacement ?t (2 ^ 15) = 2 ^ 15" by (rule f(5)) simp_all
  have a: "occupied (table_m ?t ! 32768)" using o by simp
  have b: "sint (psl (table_m ?t ! 32768)) = - 32768" using p by simp
  have c: "int ((32768 + 65536 - unat (hash (key (table_m ?t ! 32768)) AND mask_m ?t))
            mod 65536) = 32768"
    using d len by (simp add: displacement_def ideal_def)
  show ?thesis using a b c by simp
qed

text \<open>
  C2, amended: after any sequence of insertions into a table constructed with capacity
  \<open>2 ^ n\<close>, the \<open>psl\<close> of every occupied slot equals the slot's displacement \<open>D\<close> from
  the ideal slot of its key whenever \<open>D\<close> is below \<open>2 ^ 15\<close>, which is always the case
  when the capacity is at most \<open>2 ^ 15\<close>.
\<close>

theorem psl_is_displacement:
  assumes "n < 64" and "t = insert_all kvs (new_BenchRHH (2 ^ n))"
    and "i < 2 ^ n" and "occupied (table_m t ! i)"
    and "D = (i + 2 ^ n - unat (hash (key (table_m t ! i)) AND mask_m t)) mod 2 ^ n"
  shows "(D < 2 ^ 15 \<longrightarrow> sint (psl (table_m t ! i)) = int D)
       \<and> (n \<le> 15 \<longrightarrow> sint (psl (table_m t ! i)) = int D)"
proof -
  have inv: "rh_inv n t" unfolding assms(2) using assms(1) by (rule fill_rh_inv)
  have wf: "well_formed n t" using inv by (simp add: rh_inv_def)
  have len: "length (table_m t) = 2 ^ n" using wf by (simp add: well_formed_def)
  have D: "D = displacement t i" using assms(5) by (simp add: displacement_def ideal_def len)
  have "slot_ok t i" using inv assms(3) by (simp add: rh_inv_def)
  hence p: "psl (table_m t ! i) = of_nat D" using assms(4) D by (simp add: slot_ok_def)
  have a: "D < 2 ^ 15 \<longrightarrow> sint (psl (table_m t ! i)) = int D"
    unfolding p using sint_of_nat_small by blast
  have "n \<le> 15 \<longrightarrow> D < 2 ^ 15"
  proof
    assume "n \<le> 15"
    hence "(2::nat) ^ n \<le> 2 ^ 15" by (intro power_increasing) simp_all
    thus "D < 2 ^ 15" using displacement_lt[OF wf, of i] D by linarith
  qed
  thus ?thesis using a by blast
qed

theorem psl_is_displacement_witness:
  "sint (psl (table_m (insert_all [(1, 5), (3, 7)] (new_BenchRHH 2)) ! 1)) = 1"
proof -
  have o: "occupied (table_m (insert_all [(1, 5), (3, 7)] (new_BenchRHH 2)) ! 1)"
    by (simp add: eval_rhh)
  have D: "(1::nat) = (1 + 2 ^ 1
      - unat (hash (key (table_m (insert_all [(1, 5), (3, 7)] (new_BenchRHH 2)) ! 1))
              AND mask_m (insert_all [(1, 5), (3, 7)] (new_BenchRHH 2)))) mod 2 ^ 1"
    by (simp add: eval_rhh)
  have t: "insert_all [(1, 5), (3, 7)] (new_BenchRHH 2)
           = insert_all [(1, 5), (3, 7)] (new_BenchRHH (2 ^ 1))" by simp
  show ?thesis using psl_is_displacement[OF _ t _ o D] by simp
qed

section \<open>Lookup of a key that was never inserted\<close>

text \<open>
  C3: the specification says that on every table reached by insertions \<open>find\<close> of a key
  that was never inserted returns \<open>false\<close>. On the table of capacity \<open>2 ^ 15\<close> filled with
  \<open>2 ^ 15\<close> keys of ideal slot 0, slot \<open>i\<close> stores \<open>psl = i\<close>. A lookup of one more key
  of ideal slot 0 meets \<open>d = psl\<close> at every slot of the first round; then \<open>d++\<close> wraps
  from 32767 to -32768, \<open>d > entry.psl\<close> stays false for the whole second round, \<open>d\<close>
  is back at 0 at slot 0, and the \<^verbatim>\<open>while (true)\<close> loop never returns.
\<close>

theorem find_never_returns:
  "cap_m saturated_table = 32768
   \<and> count_occupied (table_m saturated_table) = 32768
   \<and> colliding_key 15 32768 \<notin> fst ` set (colliding_kvs 15 32768)
   \<and> find_rhh saturated_table (colliding_key 15 32768) 0 = None"
proof -
  let ?t = saturated_table
  let ?q = "colliding_key 15 (2 ^ 15)"
  note f = colliding_fill[of 15 16 "2 ^ 15" ?t, OF _ _ _ _ saturated_table_alt]
  have inv: "rh_inv 15 ?t" by (rule f(1)) simp_all
  have wf: "well_formed 15 ?t" using inv by (simp add: rh_inv_def)
  have len: "length (table_m ?t) = 2 ^ 15" and mk: "mask_m ?t = 2 ^ 15 - 1"
    and cap: "cap_m ?t = 2 ^ 15"
    using wf by (simp_all add: well_formed_def)
  have cnt: "count_occupied (table_m ?t) = 2 ^ 15" by (rule f(6)) simp_all
  have occ: "\<And>i. i < 2 ^ 15 \<Longrightarrow> occupied (table_m ?t ! i)" using f(2) by simp
  have pslv: "\<And>i. i < 2 ^ 15 \<Longrightarrow> psl (table_m ?t ! i) = of_nat i" by (rule f(3)) simp_all
  have keys: "\<And>i. i < 2 ^ 15 \<Longrightarrow> \<exists>j<2 ^ 15. key (table_m ?t ! i) = colliding_key 15 j"
    by (rule f(4)) simp_all
  have fresh: "colliding_key 15 j \<noteq> ?q" if "j < 2 ^ 15" for j
  proof
    assume e: "colliding_key 15 j = ?q"
    have "j = 2 ^ 15" using that by (intro colliding_inj[of 15 16 j "2 ^ 15", OF _ _ _ e]) simp_all
    thus False using that by simp
  qed
  let ?Orb = "\<lambda>(idx::64 word) (d::16 word). \<exists>s. unat idx = s mod 2 ^ 15 \<and> d = of_nat s"
  have step: "unat idx < length (table_m ?t) \<and> occupied (table_m ?t ! unat idx)
      \<and> \<not> psl (table_m ?t ! unat idx) <s d \<and> key (table_m ?t ! unat idx) \<noteq> ?q
      \<and> ?Orb ((idx + 1) AND mask_m ?t) (d + 1)" if "?Orb idx d" for idx d
  proof -
    from that obtain s where s: "unat idx = s mod 2 ^ 15" "d = of_nat s" by blast
    have x: "unat idx < 2 ^ 15" unfolding s(1) by simp
    have 1: "unat idx < length (table_m ?t)" using x len by simp
    have 2: "occupied (table_m ?t ! unat idx)" using occ[OF x] .
    have e: "psl (table_m ?t ! unat idx) = of_nat (s mod 2 ^ 15)"
      using pslv[OF x] s(1) by simp
    have 3: "\<not> psl (table_m ?t ! unat idx) <s d"
      unfolding e s(2) by (rule no_exit_wrapped)
    from keys[OF x] obtain j where j: "j < 2 ^ 15" "key (table_m ?t ! unat idx) = colliding_key 15 j"
      by blast
    have 4: "key (table_m ?t ! unat idx) \<noteq> ?q" using fresh[OF j(1)] j(2) by simp
    have "unat ((idx + 1) AND mask_m ?t) = Suc (unat idx) mod 2 ^ 15"
      using unat_next_idx[of 15 idx] x mk by simp
    hence "unat ((idx + 1) AND mask_m ?t) = Suc s mod 2 ^ 15" unfolding s(1) by (simp add: mod_Suc_eq)
    moreover have "d + 1 = of_nat (Suc s)" unfolding s(2) by simp
    ultimately have 5: "?Orb ((idx + 1) AND mask_m ?t) (d + 1)" by blast
    show ?thesis using 1 2 3 4 5 by blast
  qed
  have "unat (hash ?q AND mask_m ?t) = 0" using ideal_colliding[OF wf, of "2 ^ 15"] by (simp add: ideal_def)
  hence start: "?Orb (hash ?q AND mask_m ?t) 0" by (intro exI[of _ 0]) simp
  have div: "find_rhh ?t ?q 0 = None"
    unfolding find_rhh_def using step start by (rule find_loop_diverges[where Orb = ?Orb])
  have notin: "?q \<notin> fst ` set (colliding_kvs 15 (2 ^ 15))"
  proof
    assume "?q \<in> fst ` set (colliding_kvs 15 (2 ^ 15))"
    then obtain j where "j < 2 ^ 15" "colliding_key 15 j = ?q"
      by (auto simp: colliding_kvs_def)
    thus False using fresh by blast
  qed
  have a: "cap_m ?t = 32768" using cap by simp
  have b: "count_occupied (table_m ?t) = 32768" using cnt by simp
  have c: "colliding_key 15 32768 \<notin> fst ` set (colliding_kvs 15 32768)" using notin by simp
  have d: "find_rhh ?t (colliding_key 15 32768) 0 = None" using div by simp
  show ?thesis using a b c d by simp
qed

end
